theory Spec2Isabelle
  imports Main
begin

section \<open>The limiter of rate-limit.js\<close>

text \<open>
  \<^verbatim>\<open>createRateLimit(limit = 15, perMiliseconds = 60000)\<close> closes over two mutable
  variables, \<^verbatim>\<open>requestCount\<close> and \<^verbatim>\<open>lastResetTime\<close>, and returns the async function
  \<^verbatim>\<open>rateLimit\<close>. The closure is a record; the two parameters are kept in it because
  \<^verbatim>\<open>rateLimit\<close> reads them. Times are the integer milliseconds of \<^verbatim>\<open>Date.now()\<close>, read
  from a logical clock; \<^verbatim>\<open>limit\<close> and \<^verbatim>\<open>perMiliseconds\<close> are taken to be integers.
\<close>

record limiter =
  limit :: int
  perMiliseconds :: int
  requestCount :: int
  lastResetTime :: int

text \<open>
  An argument that is left out (\<^verbatim>\<open>undefined\<close>) is \<open>None\<close> and takes the default of
  the parameter list. The third argument is the value \<^verbatim>\<open>Date.now()\<close> returns at line 19.
\<close>

definition createRateLimit :: "int option \<Rightarrow> int option \<Rightarrow> int \<Rightarrow> limiter" where
  "createRateLimit l p dateNow =
     \<lparr>limit = (case l of None \<Rightarrow> 15 | Some n \<Rightarrow> n),
      perMiliseconds = (case p of None \<Rightarrow> 60000 | Some d \<Rightarrow> d),
      requestCount = 0,
      lastResetTime = dateNow\<rparr>"

subsection \<open>Promises and the wait helper\<close>

text \<open>How a promise settles: fulfilled with a value or rejected with an error value.\<close>

datatype ('e, 'a) settled = Resolved 'a | Rejected 'e

text \<open>
  The timers of Node, on which \<^verbatim>\<open>wait\<close> relies: \<^verbatim>\<open>setTimeout(callback, after)\<close> keeps a
  delay between 1 and \<^verbatim>\<open>TIMEOUT_MAX\<close> (\<open>2^31 - 1\<close>) milliseconds as it is and sets any
  other delay (zero, negative, or larger than \<^verbatim>\<open>TIMEOUT_MAX\<close>) to 1 millisecond.
\<close>

definition TIMEOUT_MAX :: int where
  "TIMEOUT_MAX = 2147483647"

definition setTimeout_after :: "int \<Rightarrow> int" where
  "setTimeout_after after = (if 1 \<le> after \<and> after \<le> TIMEOUT_MAX then after else 1)"

text \<open>
  \<^verbatim>\<open>wait(time)\<close> builds a promise whose executor calls \<^verbatim>\<open>setTimeout\<close> with the delay
  \<^verbatim>\<open>time\<close>; the timer's callback calls \<^verbatim>\<open>resolve()\<close>, and \<^verbatim>\<open>reject\<close> is never called. The
  model gives the time at which the timer is due and the way the promise settles when
  the timer's callback runs.
\<close>

definition wait :: "int \<Rightarrow> int \<Rightarrow> int \<times> (unit, unit) settled" where
  "wait time dateNow = (dateNow + setTimeout_after time, Resolved ())"

subsection \<open>The async function rateLimit, split at its await points\<close>

text \<open>
  Lines 37 to 40 are \<open>resetIfElapsed\<close>. Lines 34 to 45 and, on the path that does not
  wait, line 52 are \<open>rateLimit_enter\<close>: the part of a call that runs synchronously
  when \<^verbatim>\<open>rateLimit(promiseFn)\<close> is called. Its second component is
  \<open>None\<close> when control reaches \<^verbatim>\<open>promiseFn()\<close> at once, and the pending
  \<^verbatim>\<open>wait(perMiliseconds)\<close> when the call suspends at line 45.
\<close>

definition resetIfElapsed :: "int \<Rightarrow> limiter \<Rightarrow> limiter" where
  "resetIfElapsed currentTime s =
     (if currentTime - lastResetTime s \<ge> perMiliseconds s
      then s\<lparr>requestCount := 0, lastResetTime := currentTime\<rparr>
      else s)"

definition rateLimit_enter ::
  "int \<Rightarrow> limiter \<Rightarrow> limiter \<times> (int \<times> (unit, unit) settled) option" where
  "rateLimit_enter currentTime s =
     (let s1 = resetIfElapsed currentTime s
      in if requestCount s1 \<ge> limit s1
         then (s1, Some (wait (perMiliseconds s1) currentTime))
         else (s1\<lparr>requestCount := requestCount s1 + 1\<rparr>, None))"

text \<open>
  Lines 48 to 52: what a call does when it is resumed after its wait, up to the call of
  \<^verbatim>\<open>promiseFn()\<close>. The argument is the value of \<^verbatim>\<open>Date.now()\<close> at line 49.
\<close>

definition rateLimit_resume :: "int \<Rightarrow> limiter \<Rightarrow> limiter" where
  "rateLimit_resume dateNow s =
     (let s1 = s\<lparr>requestCount := 0, lastResetTime := dateNow\<rparr>
      in s1\<lparr>requestCount := requestCount s1 + 1\<rparr>)"

subsection \<open>Cooperative scheduling of many calls\<close>

text \<open>
  Where a call of \<^verbatim>\<open>rateLimit\<close> stands. \<open>Waiting\<close> is the suspension at line 45, with
  the time its timer is due and the settlement of the awaited promise; \<open>Running\<close> is
  the suspension at line 54, after \<^verbatim>\<open>promiseFn()\<close> was called; \<open>Finished\<close> holds what
  the promise returned by \<^verbatim>\<open>rateLimit\<close> settled with; \<open>Aborted\<close> is a call whose
  promise was rejected because its own \<^verbatim>\<open>await wait(...)\<close> threw.
\<close>

datatype ('e, 'a) call_state =
    Waiting int "(unit, unit) settled"
  | Running
  | Finished "('e, 'a) settled"
  | Aborted

text \<open>
  What the limiter does to the outside, in order: \<open>Delayed i t d\<close> is call \<open>i\<close> taking
  lines 44 and 45 at time \<open>t\<close> (the log message and \<^verbatim>\<open>wait(d)\<close>, a timer asked for \<open>d\<close>
  milliseconds);
  \<open>Invoked i t n\<close> is call \<open>i\<close> calling its \<^verbatim>\<open>promiseFn\<close> at time \<open>t\<close> with \<open>n\<close>
  arguments.
\<close>

datatype effect = Delayed nat int int | Invoked nat int nat

record ('e, 'a) world =
  lim :: limiter
  now :: int
  calls :: "('e, 'a) call_state list"
  trace :: "effect list"

text \<open>
  The clock and the scheduler are the input: at time \<open>t\<close> a caller calls \<^verbatim>\<open>rateLimit\<close>,
  the timer of call \<open>i\<close> fires, or the promise of the task of call \<open>i\<close> settles. A task
  that throws when called is a task that settles as \<open>Rejected\<close>.
\<close>

datatype ('e, 'a) event =
    Call int
  | TimerFires int nat
  | Settles int nat "('e, 'a) settled"

definition boot :: "int option \<Rightarrow> int option \<Rightarrow> int \<Rightarrow> ('e, 'a) world" where
  "boot l p dateNow =
     \<lparr>lim = createRateLimit l p dateNow, now = dateNow, calls = [], trace = []\<rparr>"

text \<open>
  One turn of the event loop. An event the clock or the scheduler cannot produce (time
  running backwards, a timer firing before it is due, a call that is not suspended
  where the event resumes it) gives \<open>None\<close>.
\<close>

fun step :: "('e, 'a) world \<Rightarrow> ('e, 'a) event \<Rightarrow> ('e, 'a) world option" where
  "step w (Call t) =
     (if t < now w then None
      else let i = length (calls w) in
        (case rateLimit_enter t (lim w) of
           (s, None) \<Rightarrow>
             Some (w\<lparr>lim := s, now := t, calls := calls w @ [Running],
                     trace := trace w @ [Invoked i t 0]\<rparr>)
         | (s, Some (due, st)) \<Rightarrow>
             Some (w\<lparr>lim := s, now := t, calls := calls w @ [Waiting due st],
                     trace := trace w @ [Delayed i t (perMiliseconds s)]\<rparr>)))"
| "step w (TimerFires t i) =
     (if t < now w \<or> length (calls w) \<le> i then None
      else (case calls w ! i of
              Waiting due st \<Rightarrow>
                (if t < due then None
                 else (case st of
                         Resolved _ \<Rightarrow>
                           Some (w\<lparr>lim := rateLimit_resume t (lim w), now := t,
                                   calls := (calls w)[i := Running],
                                   trace := trace w @ [Invoked i t 0]\<rparr>)
                       | Rejected _ \<Rightarrow>
                           Some (w\<lparr>now := t, calls := (calls w)[i := Aborted]\<rparr>)))
            | _ \<Rightarrow> None))"
| "step w (Settles t i out) =
     (if t < now w \<or> length (calls w) \<le> i then None
      else (case calls w ! i of
              Running \<Rightarrow> Some (w\<lparr>now := t, calls := (calls w)[i := Finished out]\<rparr>)
            | _ \<Rightarrow> None))"

fun run :: "('e, 'a) world \<Rightarrow> ('e, 'a) event list \<Rightarrow> ('e, 'a) world option" where
  "run w [] = Some w"
| "run w (ev # evs) = (case step w ev of None \<Rightarrow> None | Some w' \<Rightarrow> run w' evs)"


subsection \<open>What a trace shows\<close>

text \<open>The calls of \<^verbatim>\<open>promiseFn\<close> made for call \<open>i\<close>: time and number of arguments.\<close>

fun invocations :: "nat \<Rightarrow> effect list \<Rightarrow> (int \<times> nat) list" where
  "invocations i [] = []"
| "invocations i (Invoked j t n # tr) =
     (if j = i then (t, n) # invocations i tr else invocations i tr)"
| "invocations i (Delayed j t d # tr) = invocations i tr"

text \<open>The waits started for call \<open>i\<close>: time and length of the timer.\<close>

fun delays :: "nat \<Rightarrow> effect list \<Rightarrow> (int \<times> int) list" where
  "delays i [] = []"
| "delays i (Delayed j t d # tr) =
     (if j = i then (t, d) # delays i tr else delays i tr)"
| "delays i (Invoked j t n # tr) = delays i tr"

text \<open>The times at which tasks were started, in order.\<close>

fun start_times :: "effect list \<Rightarrow> int list" where
  "start_times [] = []"
| "start_times (Invoked j t n # tr) = t # start_times tr"
| "start_times (Delayed j t d # tr) = start_times tr"

text \<open>How many of the times \<open>ts\<close> lie in the window \<open>[a, a + len)\<close>.\<close>

definition starts_within :: "int \<Rightarrow> int \<Rightarrow> int list \<Rightarrow> nat" where
  "starts_within a len ts = length (filter (\<lambda>t. a \<le> t \<and> t < a + len) ts)"


subsection \<open>A caller that awaits each call before the next\<close>

text \<open>
  The loop \<^verbatim>\<open>for (...) { await rateLimit(promiseFn) }\<close> of the tests and of the README
  issues a call only when the promise of every earlier call has settled. \<open>run_awaited\<close>
  is \<open>run\<close> restricted to such schedules.
\<close>

fun is_done :: "('e, 'a) call_state \<Rightarrow> bool" where
  "is_done (Finished out) = True"
| "is_done Aborted = True"
| "is_done c = False"

fun awaited_ok :: "('e, 'a) world \<Rightarrow> ('e, 'a) event \<Rightarrow> bool" where
  "awaited_ok w (Call t) = list_all is_done (calls w)"
| "awaited_ok w ev = True"

fun run_awaited :: "('e, 'a) world \<Rightarrow> ('e, 'a) event list \<Rightarrow> ('e, 'a) world option" where
  "run_awaited w [] = Some w"
| "run_awaited w (ev # evs) =
     (if awaited_ok w ev
      then (case step w ev of None \<Rightarrow> None | Some w' \<Rightarrow> run_awaited w' evs)
      else None)"

subsection \<open>The steps of the specification\<close>

text \<open>
  The five steps the specification gives for one call, written from its words: read
  \<open>now\<close>; roll the window over if \<open>now - windowStart \<ge> windowDuration\<close>; if
  \<open>admittedCount \<ge> limit\<close>, wait a full \<open>windowDuration\<close> and then set
  \<open>admittedCount = 0\<close> and \<open>windowStart\<close> to the time after the wait; increment
  \<open>admittedCount\<close>; invoke the task. The result is the limiter after step 4, the length
  of the wait if there is one, and the time at which the task is invoked.
\<close>

definition spec_rollover :: "int \<Rightarrow> limiter \<Rightarrow> limiter" where
  "spec_rollover tnow s =
     (if tnow - lastResetTime s \<ge> perMiliseconds s
      then s\<lparr>requestCount := 0, lastResetTime := tnow\<rparr> else s)"

definition spec_saturated :: "limiter \<Rightarrow> bool" where
  "spec_saturated s = (requestCount s \<ge> limit s)"

definition spec_execute :: "int \<Rightarrow> int \<Rightarrow> limiter \<Rightarrow> limiter \<times> int option \<times> int" where
  "spec_execute tnow tafter s =
     (let s2 = spec_rollover tnow s;
          s3 = (if spec_saturated s2
                then s2\<lparr>requestCount := 0, lastResetTime := tafter\<rparr> else s2);
          s4 = s3\<lparr>requestCount := requestCount s3 + 1\<rparr>
      in (s4,
          if spec_saturated s2 then Some (perMiliseconds s) else None,
          if spec_saturated s2 then tafter else tnow))"

text \<open>
  Steps 3 and 4 for a call that has waited, from where the wait ended: set
  \<open>admittedCount = 0\<close> and \<open>windowStart\<close> to the time after the wait, then increment
  \<open>admittedCount\<close>.
\<close>

definition spec_after_wait :: "int \<Rightarrow> limiter \<Rightarrow> limiter" where
  "spec_after_wait tafter s =
     (let s3 = s\<lparr>requestCount := 0, lastResetTime := tafter\<rparr>
      in s3\<lparr>requestCount := requestCount s3 + 1\<rparr>)"

subsection \<open>Moving a run in time, and forgetting what tasks returned\<close>

text \<open>The same world with every time later by \<open>d\<close>.\<close>

definition shift_limiter :: "int \<Rightarrow> limiter \<Rightarrow> limiter" where
  "shift_limiter d s = s\<lparr>lastResetTime := lastResetTime s + d\<rparr>"

fun shift_call :: "int \<Rightarrow> ('e, 'a) call_state \<Rightarrow> ('e, 'a) call_state" where
  "shift_call d (Waiting due st) = Waiting (due + d) st"
| "shift_call d c = c"

fun shift_effect :: "int \<Rightarrow> effect \<Rightarrow> effect" where
  "shift_effect d (Delayed i t len) = Delayed i (t + d) len"
| "shift_effect d (Invoked i t n) = Invoked i (t + d) n"

fun shift_event :: "int \<Rightarrow> ('e, 'a) event \<Rightarrow> ('e, 'a) event" where
  "shift_event d (Call t) = Call (t + d)"
| "shift_event d (TimerFires t i) = TimerFires (t + d) i"
| "shift_event d (Settles t i out) = Settles (t + d) i out"

definition shift_world :: "int \<Rightarrow> ('e, 'a) world \<Rightarrow> ('e, 'a) world" where
  "shift_world d w =
     \<lparr>lim = shift_limiter d (lim w), now = now w + d,
      calls = map (shift_call d) (calls w), trace = map (shift_effect d) (trace w)\<rparr>"

text \<open>An event and a world without the values and errors of the tasks.\<close>

fun timing :: "('e, 'a) event \<Rightarrow> (unit, unit) event" where
  "timing (Call t) = Call t"
| "timing (TimerFires t i) = TimerFires t i"
| "timing (Settles t i out) = Settles t i (Resolved ())"

fun phase :: "('e, 'a) call_state \<Rightarrow> (unit, unit) call_state" where
  "phase (Waiting due st) = Waiting due st"
| "phase Running = Running"
| "phase (Finished out) = Finished (Resolved ())"
| "phase Aborted = Aborted"

definition forget :: "('e, 'a) world \<Rightarrow> (unit, unit) world" where
  "forget w = \<lparr>lim = lim w, now = now w, calls = map phase (calls w), trace = trace w\<rparr>"

subsection \<open>Bookkeeping between the calls and the trace\<close>

fun effect_id :: "effect \<Rightarrow> nat" where
  "effect_id (Delayed i t d) = i"
| "effect_id (Invoked i t n) = i"

text \<open>
  Call \<open>i\<close> has called its task once, with no argument, and has waited at most once
  before that, on a timer asked for \<open>len\<close> milliseconds that was due by then.
\<close>

definition admitted_once :: "int \<Rightarrow> effect list \<Rightarrow> nat \<Rightarrow> bool" where
  "admitted_once len tr i =
     (case invocations i tr of
        [(t, n)] \<Rightarrow>
          n = 0 \<and>
          (case delays i tr of
             [] \<Rightarrow> True
           | [(t0, d)] \<Rightarrow> d = len \<and> t0 + setTimeout_after d \<le> t
           | _ \<Rightarrow> False)
      | _ \<Rightarrow> False)"

text \<open>What the trace holds about call \<open>i\<close>, by where the call stands.\<close>

fun accounted :: "int \<Rightarrow> effect list \<Rightarrow> nat \<Rightarrow> ('e, 'a) call_state \<Rightarrow> bool" where
  "accounted len tr i (Waiting due st) =
     (st = Resolved () \<and> invocations i tr = [] \<and>
      delays i tr = [(due - setTimeout_after len, len)])"
| "accounted len tr i Running = admitted_once len tr i"
| "accounted len tr i (Finished out) = admitted_once len tr i"
| "accounted len tr i Aborted = False"

definition consistent :: "('e, 'a) world \<Rightarrow> bool" where
  "consistent w =
     ((\<forall>i < length (calls w). accounted (perMiliseconds (lim w)) (trace w) i (calls w ! i)) \<and>
      (\<forall>e \<in> set (trace w). effect_id e < length (calls w)))"

text \<open>What the tasks of call \<open>i\<close> settled with, as the scheduler delivered it.\<close>

fun settlements :: "nat \<Rightarrow> ('e, 'a) event list \<Rightarrow> ('e, 'a) settled list" where
  "settlements i [] = []"
| "settlements i (Settles t j out # evs) =
     (if j = i then out # settlements i evs else settlements i evs)"
| "settlements i (Call t # evs) = settlements i evs"
| "settlements i (TimerFires t j # evs) = settlements i evs"

text \<open>What the promise returned by a call has settled with, if it has.\<close>

fun settled_with :: "('e, 'a) call_state \<Rightarrow> ('e, 'a) settled list" where
  "settled_with (Finished out) = [out]"
| "settled_with c = []"

text \<open>A call that has reached line 54: its task has been called.\<close>

fun admitted :: "('e, 'a) call_state \<Rightarrow> bool" where
  "admitted Running = True"
| "admitted (Finished out) = True"
| "admitted c = False"

subsection \<open>The window of a limiter whose calls are awaited\<close>



section \<open>Configuration and counter\<close>

lemma step_config:
  "step w ev = Some w' \<Longrightarrow>
     limit (lim w') = limit (lim w) \<and> perMiliseconds (lim w') = perMiliseconds (lim w)"
  by (cases ev)
     (auto simp: rateLimit_enter_def resetIfElapsed_def rateLimit_resume_def Let_def wait_def
           split: if_splits prod.splits option.splits call_state.splits settled.splits)

lemma run_config:
  "run w evs = Some w' \<Longrightarrow>
     limit (lim w') = limit (lim w) \<and> perMiliseconds (lim w') = perMiliseconds (lim w)"
proof (induction evs arbitrary: w)
  case Nil
  then show ?case by simp
next
  case (Cons ev evs)
  then obtain w1 where s: "step w ev = Some w1" and r: "run w1 evs = Some w'"
    by (auto split: option.splits)
  from Cons.IH [OF r] step_config [OF s] show ?case by simp
qed

lemma step_count_bound:
  assumes "step w ev = Some w'" and "1 \<le> limit (lim w)"
    and "0 \<le> requestCount (lim w)" and "requestCount (lim w) \<le> limit (lim w)"
  shows "0 \<le> requestCount (lim w') \<and> requestCount (lim w') \<le> limit (lim w')"
  using assms
  by (cases ev)
     (auto simp: rateLimit_enter_def resetIfElapsed_def rateLimit_resume_def Let_def wait_def
           split: if_splits prod.splits option.splits call_state.splits settled.splits)

lemma run_count_bound:
  assumes "run w evs = Some w'" and "1 \<le> limit (lim w)"
    and "0 \<le> requestCount (lim w)" and "requestCount (lim w) \<le> limit (lim w)"
  shows "0 \<le> requestCount (lim w') \<and> requestCount (lim w') \<le> limit (lim w')"
  using assms
proof (induction evs arbitrary: w)
  case Nil
  then show ?case by simp
next
  case (Cons ev evs)
  then obtain w1 where s: "step w ev = Some w1" and r: "run w1 evs = Some w'"
    by (auto split: option.splits)
  have b: "0 \<le> requestCount (lim w1) \<and> requestCount (lim w1) \<le> limit (lim w1)"
    using step_count_bound [OF s] Cons.prems by simp
  have l: "1 \<le> limit (lim w1)" using step_config [OF s] Cons.prems by simp
  from Cons.IH [OF r l] b show ?case by simp
qed

text \<open>
  Claim C6. For a limiter constructed with an integer \<open>limit \<ge> 1\<close>, whatever calls are
  made and however the scheduler interleaves them, \<open>requestCount \<le> limit\<close> holds
  between any two turns of the event loop: whenever every call is suspended at an
  \<^verbatim>\<open>await\<close> or has completed. The counter is never negative either.
\<close>

theorem counter_within_limit:
  assumes "1 \<le> n" and "run (boot (Some n) p t0) evs = Some w"
  shows "0 \<le> requestCount (lim w) \<and> requestCount (lim w) \<le> n"
proof -
  have "0 \<le> requestCount (lim w) \<and> requestCount (lim w) \<le> limit (lim w)"
    using run_count_bound [OF assms(2)] assms(1) by (simp add: boot_def createRateLimit_def)
  moreover have "limit (lim w) = n"
    using run_config [OF assms(2)] by (simp add: boot_def createRateLimit_def)
  ultimately show ?thesis by simp
qed

theorem counter_within_limit_witness:
  "(1::int) \<le> 1 \<and>
   run (boot (Some 1) (Some 5000) 0) [Call 0, Call 0, Call 3, TimerFires 5000 1] =
     Some (\<lparr>lim = \<lparr>limit = 1, perMiliseconds = 5000, requestCount = 1, lastResetTime = 5000\<rparr>,
            now = 5000,
            calls = [Running, Running, Waiting 5003 (Resolved ())],
            trace = [Invoked 0 0 0, Delayed 1 0 5000, Delayed 2 3 5000, Invoked 1 5000 0]\<rparr>
           :: (unit, unit) world) \<and>
   requestCount \<lparr>limit = 1, perMiliseconds = 5000, requestCount = 1, lastResetTime = 5000\<rparr> \<le> 1"
proof -
  have r: "run (boot (Some 1) (Some 5000) 0) [Call 0, Call 0, Call 3, TimerFires 5000 1] =
     Some (\<lparr>lim = \<lparr>limit = 1, perMiliseconds = 5000, requestCount = 1, lastResetTime = 5000\<rparr>,
            now = 5000,
            calls = [Running, Running, Waiting 5003 (Resolved ())],
            trace = [Invoked 0 0 0, Delayed 1 0 5000, Delayed 2 3 5000, Invoked 1 5000 0]\<rparr>
           :: (unit, unit) world)"
    by (simp add: boot_def createRateLimit_def rateLimit_enter_def resetIfElapsed_def rateLimit_resume_def
          wait_def setTimeout_after_def TIMEOUT_MAX_def Let_def)
  have one: "(1::int) \<le> 1" by simp
  from counter_within_limit [OF one r] r show ?thesis by simp
qed

section \<open>Runs, read from the end\<close>

lemma run_append:
  "run w (evs @ evs') = (case run w evs of None \<Rightarrow> None | Some w1 \<Rightarrow> run w1 evs')"
  by (induction evs arbitrary: w) (auto split: option.splits)

lemma run_snoc:
  "run w (evs @ [ev]) = (case run w evs of None \<Rightarrow> None | Some w1 \<Rightarrow> step w1 ev)"
  by (simp add: run_append split: option.splits)

lemma run_snoc_SomeE:
  assumes "run w (evs @ [ev]) = Some w'"
  obtains w1 where "run w evs = Some w1" and "step w1 ev = Some w'"
  using assms by (auto simp: run_snoc split: option.splits)

section \<open>Each call and its effects\<close>

lemma invocations_append: "invocations i (tr @ tr') = invocations i tr @ invocations i tr'"
  by (induction i tr rule: invocations.induct) auto

lemma delays_append: "delays i (tr @ tr') = delays i tr @ delays i tr'"
  by (induction i tr rule: delays.induct) auto

lemma settlements_append: "settlements i (evs @ evs') = settlements i evs @ settlements i evs'"
  by (induction i evs rule: settlements.induct) auto

lemma invocations_fresh: "\<forall>e \<in> set tr. effect_id e \<noteq> i \<Longrightarrow> invocations i tr = []"
  by (induction i tr rule: invocations.induct) auto

lemma delays_fresh: "\<forall>e \<in> set tr. effect_id e \<noteq> i \<Longrightarrow> delays i tr = []"
  by (induction i tr rule: delays.induct) auto

lemma invocations_snoc_invoked:
  "invocations j (tr @ [Invoked i t n]) =
     (if i = j then invocations j tr @ [(t, n)] else invocations j tr)"
  by (simp add: invocations_append)

lemma invocations_snoc_delayed: "invocations j (tr @ [Delayed i t d]) = invocations j tr"
  by (simp add: invocations_append)

lemma delays_snoc_delayed:
  "delays j (tr @ [Delayed i t d]) =
     (if i = j then delays j tr @ [(t, d)] else delays j tr)"
  by (simp add: delays_append)

lemma delays_snoc_invoked: "delays j (tr @ [Invoked i t n]) = delays j tr"
  by (simp add: delays_append)

lemma admitted_once_other_invoked:
  assumes "j \<noteq> i"
  shows "admitted_once len (tr @ [Invoked i t n]) j = admitted_once len tr j"
proof -
  have a: "invocations j (tr @ [Invoked i t n]) = invocations j tr"
    using assms by (simp add: invocations_snoc_invoked)
  show ?thesis unfolding admitted_once_def a delays_snoc_invoked ..
qed

lemma admitted_once_other_delayed:
  assumes "j \<noteq> i"
  shows "admitted_once len (tr @ [Delayed i t d]) j = admitted_once len tr j"
proof -
  have a: "delays j (tr @ [Delayed i t d]) = delays j tr"
    using assms by (simp add: delays_snoc_delayed)
  show ?thesis unfolding admitted_once_def a invocations_snoc_delayed ..
qed

lemma accounted_other_invoked:
  "j \<noteq> i \<Longrightarrow> accounted len (tr @ [Invoked i t n]) j c = accounted len tr j c"
  by (cases c)
     (simp_all add: admitted_once_other_invoked invocations_snoc_invoked delays_snoc_invoked)

lemma accounted_other_delayed:
  "j \<noteq> i \<Longrightarrow> accounted len (tr @ [Delayed i t d]) j c = accounted len tr j c"
  by (cases c)
     (simp_all add: admitted_once_other_delayed invocations_snoc_delayed delays_snoc_delayed)

lemma setTimeout_after_in_range:
  "1 \<le> d \<Longrightarrow> d \<le> TIMEOUT_MAX \<Longrightarrow> setTimeout_after d = d"
  by (simp add: setTimeout_after_def)

lemma setTimeout_after_bounds: "1 \<le> setTimeout_after d \<and> setTimeout_after d \<le> TIMEOUT_MAX"
  by (simp add: setTimeout_after_def TIMEOUT_MAX_def)

lemma step_Call_admit:
  assumes "now w \<le> t" and "requestCount (resetIfElapsed t (lim w)) < limit (lim w)"
  shows "step w (Call t) =
           Some (w\<lparr>lim := (resetIfElapsed t (lim w))
                          \<lparr>requestCount := requestCount (resetIfElapsed t (lim w)) + 1\<rparr>,
                   now := t, calls := calls w @ [Running],
                   trace := trace w @ [Invoked (length (calls w)) t 0]\<rparr>)"
  using assms by (auto simp: rateLimit_enter_def resetIfElapsed_def Let_def split: if_splits)

lemma step_Call_suspend:
  assumes "now w \<le> t" and "limit (lim w) \<le> requestCount (resetIfElapsed t (lim w))"
  shows "step w (Call t) =
           Some (w\<lparr>lim := resetIfElapsed t (lim w), now := t,
                   calls := calls w @
                     [Waiting (t + setTimeout_after (perMiliseconds (lim w))) (Resolved ())],
                   trace := trace w @ [Delayed (length (calls w)) t (perMiliseconds (lim w))]\<rparr>)"
  using assms
  by (auto simp: rateLimit_enter_def resetIfElapsed_def Let_def wait_def split: if_splits)

lemma resetIfElapsed_config [simp]:
  "limit (resetIfElapsed t s) = limit s" "perMiliseconds (resetIfElapsed t s) = perMiliseconds s"
  by (simp_all add: resetIfElapsed_def)

lemma consistent_Call_admit:
  assumes c: "consistent w" and p: "perMiliseconds s = perMiliseconds (lim w)"
  shows "consistent (w\<lparr>lim := s, now := t, calls := calls w @ [Running],
                       trace := trace w @ [Invoked (length (calls w)) t 0]\<rparr>)"
proof -
  let ?i = "length (calls w)"
  from c have ids: "\<forall>e \<in> set (trace w). effect_id e \<noteq> ?i"
    by (auto simp: consistent_def)
  have new: "admitted_once (perMiliseconds (lim w)) (trace w @ [Invoked ?i t 0]) ?i"
    by (simp add: admitted_once_def invocations_snoc_invoked delays_snoc_invoked
          invocations_fresh [OF ids] delays_fresh [OF ids])
  show ?thesis
    using c new p
    by (auto simp: consistent_def nth_append accounted_other_invoked less_Suc_eq)
qed

lemma consistent_Call_suspend:
  assumes c: "consistent w" and p: "perMiliseconds s = perMiliseconds (lim w)"
  shows "consistent (w\<lparr>lim := s, now := t,
                       calls := calls w @
                         [Waiting (t + setTimeout_after (perMiliseconds (lim w))) (Resolved ())],
                       trace := trace w @ [Delayed (length (calls w)) t (perMiliseconds (lim w))]\<rparr>)"
proof -
  let ?i = "length (calls w)"
  from c have ids: "\<forall>e \<in> set (trace w). effect_id e \<noteq> ?i"
    by (auto simp: consistent_def)
  show ?thesis
    using c p
    by (auto simp: consistent_def nth_append accounted_other_delayed less_Suc_eq
          invocations_snoc_delayed delays_snoc_delayed
          invocations_fresh [OF ids] delays_fresh [OF ids])
qed

lemma consistent_TimerFires:
  assumes c: "consistent w" and i: "i < length (calls w)"
    and st: "calls w ! i = Waiting due st" and due: "due \<le> t"
    and p: "perMiliseconds s = perMiliseconds (lim w)"
  shows "consistent (w\<lparr>lim := s, now := t, calls := (calls w)[i := Running],
                       trace := trace w @ [Invoked i t 0]\<rparr>)"
proof -
  from c i st have a: "invocations i (trace w) = []"
    and b: "delays i (trace w) =
              [(due - setTimeout_after (perMiliseconds (lim w)), perMiliseconds (lim w))]"
    by (auto simp: consistent_def dest!: spec [of _ i])
  have new: "admitted_once (perMiliseconds (lim w)) (trace w @ [Invoked i t 0]) i"
    using due by (simp add: admitted_once_def invocations_snoc_invoked delays_snoc_invoked a b)
  show ?thesis
    using c new p i
    by (auto simp: consistent_def nth_list_update accounted_other_invoked)
qed

lemma consistent_Settles:
  assumes c: "consistent w" and i: "i < length (calls w)" and st: "calls w ! i = Running"
  shows "consistent (w\<lparr>now := t, calls := (calls w)[i := Finished out]\<rparr>)"
proof -
  from c i st have "admitted_once (perMiliseconds (lim w)) (trace w) i"
    by (auto simp: consistent_def dest!: spec [of _ i])
  then show ?thesis
    using c i by (auto simp: consistent_def nth_list_update)
qed

lemma consistent_Waiting:
  "consistent w \<Longrightarrow> i < length (calls w) \<Longrightarrow> calls w ! i = Waiting due st \<Longrightarrow> st = Resolved ()"
  by (auto simp: consistent_def dest!: spec [of _ i])

lemma step_consistent:
  assumes s: "step w ev = Some w'" and c: "consistent w"
  shows "consistent w'"
proof (cases ev)
  case (Call t)
  with s have t: "now w \<le> t" by (auto split: if_splits)
  show ?thesis
  proof (cases "requestCount (resetIfElapsed t (lim w)) < limit (lim w)")
    case True
    from s show ?thesis
      unfolding Call step_Call_admit [OF t True]
      using consistent_Call_admit [OF c] by auto
  next
    case False
    then have f: "limit (lim w) \<le> requestCount (resetIfElapsed t (lim w))" by simp
    from s show ?thesis
      unfolding Call step_Call_suspend [OF t f]
      using consistent_Call_suspend [OF c] by auto
  qed
next
  case (TimerFires t i)
  with s obtain due st where i: "i < length (calls w)" and st: "calls w ! i = Waiting due st"
    and due: "due \<le> t"
    by (auto split: if_splits call_state.splits)
  from consistent_Waiting [OF c i st] have r: "st = Resolved ()" .
  from s TimerFires i st due r
  have "w' = w\<lparr>lim := rateLimit_resume t (lim w), now := t, calls := (calls w)[i := Running],
                trace := trace w @ [Invoked i t 0]\<rparr>"
    by (auto split: if_splits)
  then show ?thesis
    using consistent_TimerFires [OF c i st due, of "rateLimit_resume t (lim w)"]
    by (simp add: rateLimit_resume_def)
next
  case (Settles t i out)
  with s have i: "i < length (calls w)" and st: "calls w ! i = Running"
    and w': "w' = w\<lparr>now := t, calls := (calls w)[i := Finished out]\<rparr>"
    by (auto split: if_splits call_state.splits)
  show ?thesis unfolding w' by (rule consistent_Settles [OF c i st])
qed

lemma boot_consistent: "consistent (boot l p t0)"
  by (simp add: consistent_def boot_def)

lemma run_consistent: "run w evs = Some w' \<Longrightarrow> consistent w \<Longrightarrow> consistent w'"
proof (induction evs arbitrary: w)
  case Nil
  then show ?case by simp
next
  case (Cons ev evs)
  then obtain w1 where s: "step w ev = Some w1" and r: "run w1 evs = Some w'"
    by (auto split: option.splits)
  from Cons.IH [OF r step_consistent [OF s Cons.prems(2)]] show ?case .
qed

lemma step_TimerFires_resume:
  assumes "i < length (calls w)" and "calls w ! i = Waiting due (Resolved ())"
    and "due \<le> t" and "now w \<le> t"
  shows "step w (TimerFires t i) =
           Some (w\<lparr>lim := (lim w)\<lparr>requestCount := 1, lastResetTime := t\<rparr>, now := t,
                   calls := (calls w)[i := Running],
                   trace := trace w @ [Invoked i t 0]\<rparr>)"
  using assms by (simp add: rateLimit_resume_def)

lemma settlements_step:
  assumes s: "step w ev = Some w'"
  shows "(if i < length (calls w') then settled_with (calls w' ! i) else []) =
         (if i < length (calls w) then settled_with (calls w ! i) else []) @ settlements i [ev]"
proof (cases ev)
  case (Call t)
  with s show ?thesis
    by (auto simp: nth_append Let_def split: if_splits prod.splits option.splits)
next
  case (TimerFires t j)
  with s show ?thesis
    by (auto simp: nth_list_update split: if_splits call_state.splits settled.splits)
next
  case (Settles t j out)
  with s show ?thesis
    by (auto simp: nth_list_update split: if_splits call_state.splits)
qed

lemma settlements_run:
  assumes "run w0 evs = Some w" and "calls w0 = []"
  shows "settlements i evs = (if i < length (calls w) then settled_with (calls w ! i) else [])"
  using assms(1)
proof (induction evs arbitrary: w rule: rev_induct)
  case Nil
  with assms(2) show ?case by simp
next
  case (snoc ev evs)
  from snoc.prems obtain w1 where r: "run w0 evs = Some w1" and s: "step w1 ev = Some w"
    by (rule run_snoc_SomeE)
  from snoc.IH [OF r] settlements_step [OF s, of i] show ?case
    by (simp add: settlements_append)
qed

lemma reachable_consistent: "run (boot l p t0) evs = Some w \<Longrightarrow> consistent w"
  by (erule run_consistent) (rule boot_consistent)

lemma consistent_accounted:
  "consistent w \<Longrightarrow> i < length (calls w) \<Longrightarrow>
     accounted (perMiliseconds (lim w)) (trace w) i (calls w ! i)"
  by (simp add: consistent_def)

lemma admitted_once_iff:
  "admitted_once len tr i =
     (\<exists>t. invocations i tr = [(t, 0)] \<and>
          (delays i tr = [] \<or>
           (\<exists>t0. delays i tr = [(t0, len)] \<and> t0 + setTimeout_after len \<le> t)))"
proof (cases "invocations i tr")
  case Nil
  then show ?thesis by (simp add: admitted_once_def)
next
  case (Cons x xs)
  obtain t n where x: "x = (t, n)" by (cases x)
  show ?thesis
  proof (cases xs)
    case (Cons y ys)
    with \<open>invocations i tr = x # xs\<close> x show ?thesis by (simp add: admitted_once_def)
  next
    case Nil
    with \<open>invocations i tr = x # xs\<close> x have inv: "invocations i tr = [(t, n)]" by simp
    show ?thesis
    proof (cases "delays i tr")
      case Nil
      with inv show ?thesis by (auto simp: admitted_once_def)
    next
      case (Cons z zs)
      obtain t0 d where z: "z = (t0, d)" by (cases z)
      show ?thesis
      proof (cases zs)
        case Nil
        with inv Cons z show ?thesis by (auto simp: admitted_once_def)
      next
        case (Cons z' zs')
        with inv \<open>delays i tr = z # zs\<close> z show ?thesis by (auto simp: admitted_once_def)
      qed
    qed
  qed
qed

lemma admitted_once_invocations:
  "admitted_once len tr i \<Longrightarrow> \<exists>t. invocations i tr = [(t, 0)]"
  by (auto simp: admitted_once_iff)

lemma admitted_once_delays:
  "admitted_once len tr i \<Longrightarrow> delays i tr = [] \<or> (\<exists>t. delays i tr = [(t, len)])"
  by (auto simp: admitted_once_iff)

lemma accounted_not_Aborted: "accounted len tr i c \<Longrightarrow> c \<noteq> Aborted"
  by (cases c) simp_all

lemma accounted_admitted:
  "accounted len tr i c \<Longrightarrow> admitted c \<Longrightarrow> \<exists>t. invocations i tr = [(t, 0)]"
  by (cases c) (simp_all add: admitted_once_invocations)

lemma accounted_delays:
  "accounted len tr i c \<Longrightarrow> delays i tr = [] \<or> (\<exists>t. delays i tr = [(t, len)])"
  by (cases c) (simp_all add: admitted_once_delays)

section \<open>The outcome of a call is the outcome of its task\<close>

text \<open>
  Claim C4. In every run, the promise returned by a call of \<^verbatim>\<open>rateLimit\<close> settles with
  exactly what the task of that call settled with, value or error, and with nothing
  else: a call is \<open>Finished out\<close> precisely when the one settlement the scheduler
  delivered for its task is \<open>out\<close>, a call that has not finished has had no settlement,
  and no call is ever rejected by the limiter's own \<^verbatim>\<open>await\<close> (no call is \<open>Aborted\<close>).
\<close>

theorem outcome_passthrough:
  assumes "run (boot l p t0) evs = Some w" and "i < length (calls w)"
  shows "calls w ! i \<noteq> Aborted \<and>
         settlements i evs = settled_with (calls w ! i) \<and>
         (calls w ! i = Finished out) = (settlements i evs = [out])"
proof -
  have a: "accounted (perMiliseconds (lim w)) (trace w) i (calls w ! i)"
    using reachable_consistent [OF assms(1)] assms(2) by (rule consistent_accounted)
  have s: "settlements i evs = settled_with (calls w ! i)"
    using settlements_run [OF assms(1), of i] assms(2) by (simp add: boot_def)
  have "(calls w ! i = Finished out) = (settled_with (calls w ! i) = [out])"
    by (cases "calls w ! i") simp_all
  with s accounted_not_Aborted [OF a] show ?thesis by simp
qed

theorem outcome_passthrough_witness:
  "run (boot (Some 1) (Some 5000) 0)
     [Call 0, Call 0, Settles 2 0 (Rejected ''boom''), TimerFires 5000 1,
      Settles 5001 1 (Resolved (7::nat))] =
     Some \<lparr>lim = \<lparr>limit = 1, perMiliseconds = 5000, requestCount = 1, lastResetTime = 5000\<rparr>,
           now = 5001,
           calls = [Finished (Rejected ''boom''), Finished (Resolved 7)],
           trace = [Invoked 0 0 0, Delayed 1 0 5000, Invoked 1 5000 0]\<rparr> \<and>
   settlements 0
     [Call 0, Call 0, Settles 2 0 (Rejected ''boom''), TimerFires 5000 1,
      Settles 5001 1 (Resolved (7::nat))] = [Rejected ''boom'']"
proof -
  let ?evs = "[Call 0, Call 0, Settles 2 0 (Rejected ''boom''), TimerFires 5000 1,
      Settles 5001 1 (Resolved (7::nat))]"
  let ?w = "\<lparr>lim = \<lparr>limit = 1, perMiliseconds = 5000, requestCount = 1, lastResetTime = 5000\<rparr>,
           now = 5001,
           calls = [Finished (Rejected ''boom''), Finished (Resolved (7::nat))],
           trace = [Invoked 0 0 0, Delayed 1 0 5000, Invoked 1 5000 0]\<rparr>"
  have r: "run (boot (Some 1) (Some 5000) 0) ?evs = Some ?w"
    by (simp add: boot_def createRateLimit_def rateLimit_enter_def resetIfElapsed_def
          rateLimit_resume_def wait_def setTimeout_after_def TIMEOUT_MAX_def Let_def)
  have i: "0 < length (calls ?w)" by simp
  from outcome_passthrough [OF r i, of "Rejected ''boom''"] r show ?thesis by simp
qed

section \<open>One task call per call of rateLimit\<close>

text \<open>
  In every run, whatever the earlier calls did and however their tasks settled: a call
  that has passed line 54 (it is running or has finished), delayed or not, has called
  its task exactly once, with zero arguments; a call that is still suspended at line 45
  has not called its task yet, and when its timer fires it is resumed and calls its
  task then, once, with zero arguments; and no call is rejected by its own wait. The
  promise of \<^verbatim>\<open>wait(d)\<close> settles as resolved, never as rejected; it is due after \<open>d\<close>
  milliseconds when \<open>d\<close> is within the range of a timer, and never later than
  \<^verbatim>\<open>TIMEOUT_MAX\<close> milliseconds.
\<close>

theorem task_invoked_once:
  assumes "run (boot l p t0) evs = Some w" and "i < length (calls w)"
  shows "calls w ! i \<noteq> Aborted \<and>
         (admitted (calls w ! i) \<longrightarrow> (\<exists>t. invocations i (trace w) = [(t, 0)])) \<and>
         (\<forall>due st t. calls w ! i = Waiting due st \<and> due \<le> t \<and> now w \<le> t \<longrightarrow>
            invocations i (trace w) = [] \<and>
            (\<exists>w'. step w (TimerFires t i) = Some w' \<and> calls w' ! i = Running \<and>
                  invocations i (trace w') = [(t, 0)])) \<and>
         snd (wait d t1) = Resolved () \<and>
         (1 \<le> d \<and> d \<le> TIMEOUT_MAX \<longrightarrow> fst (wait d t1) = t1 + d) \<and>
         fst (wait d t1) \<le> t1 + TIMEOUT_MAX"
proof -
  have a: "accounted (perMiliseconds (lim w)) (trace w) i (calls w ! i)"
    using reachable_consistent [OF assms(1)] assms(2) by (rule consistent_accounted)
  have w: "\<forall>due st t. calls w ! i = Waiting due st \<and> due \<le> t \<and> now w \<le> t \<longrightarrow>
            invocations i (trace w) = [] \<and>
            (\<exists>w'. step w (TimerFires t i) = Some w' \<and> calls w' ! i = Running \<and>
                  invocations i (trace w') = [(t, 0)])"
  proof (intro allI impI)
    fix due st t
    assume h: "calls w ! i = Waiting due st \<and> due \<le> t \<and> now w \<le> t"
    with a have st: "st = Resolved ()" and n: "invocations i (trace w) = []" by simp_all
    from h st have c: "calls w ! i = Waiting due (Resolved ())" by simp
    from h have d: "due \<le> t" and t: "now w \<le> t" by simp_all
    show "invocations i (trace w) = [] \<and>
            (\<exists>w'. step w (TimerFires t i) = Some w' \<and> calls w' ! i = Running \<and>
                  invocations i (trace w') = [(t, 0)])"
      unfolding step_TimerFires_resume [OF assms(2) c d t]
      using n assms(2) by (simp add: invocations_snoc_invoked)
  qed
  have t: "snd (wait d t1) = Resolved () \<and>
         (1 \<le> d \<and> d \<le> TIMEOUT_MAX \<longrightarrow> fst (wait d t1) = t1 + d) \<and>
         fst (wait d t1) \<le> t1 + TIMEOUT_MAX"
    using setTimeout_after_bounds [of d] by (simp add: wait_def setTimeout_after_in_range)
  from accounted_not_Aborted [OF a] accounted_admitted [OF a] w t show ?thesis
    by blast
qed

theorem task_invoked_once_witness:
  "run (boot (Some 1) (Some 5000) 0)
     [Call 0, Call 0, Settles 2 0 (Rejected ''boom''), TimerFires 5000 1,
      Settles 5001 1 (Resolved (7::nat))] =
     Some \<lparr>lim = \<lparr>limit = 1, perMiliseconds = 5000, requestCount = 1, lastResetTime = 5000\<rparr>,
           now = 5001,
           calls = [Finished (Rejected ''boom''), Finished (Resolved 7)],
           trace = [Invoked 0 0 0, Delayed 1 0 5000, Invoked 1 5000 0]\<rparr> \<and>
   (\<exists>t. invocations 1 [Invoked 0 0 0, Delayed 1 0 5000, Invoked 1 5000 0] = [(t, 0)])"
proof -
  let ?evs = "[Call 0, Call 0, Settles 2 0 (Rejected ''boom''), TimerFires 5000 1,
      Settles 5001 1 (Resolved (7::nat))]"
  let ?w = "\<lparr>lim = \<lparr>limit = 1, perMiliseconds = 5000, requestCount = 1, lastResetTime = 5000\<rparr>,
           now = 5001,
           calls = [Finished (Rejected ''boom''), Finished (Resolved (7::nat))],
           trace = [Invoked 0 0 0, Delayed 1 0 5000, Invoked 1 5000 0]\<rparr>"
  have r: "run (boot (Some 1) (Some 5000) 0) ?evs = Some ?w"
    by (simp add: boot_def createRateLimit_def rateLimit_enter_def resetIfElapsed_def
          rateLimit_resume_def wait_def setTimeout_after_def TIMEOUT_MAX_def Let_def)
  have i: "1 < length (calls ?w)" by simp
  from task_invoked_once [OF r i] r show ?thesis by simp
qed

text \<open>
  Claim C10. The promise of \<^verbatim>\<open>wait\<close> is to resolve after the given delay; the code does
  not keep to the delay when it is larger than \<^verbatim>\<open>TIMEOUT_MAX\<close>. The promise of
  \<^verbatim>\<open>wait(2147483648)\<close>, made at time 0, is due at 1, not at \<open>2147483648\<close>; and on a limiter
  with \<open>limit = 1\<close> and that window, a second call made at 0 calls its task at 1. The
  task is still called once, with zero arguments, and the promise still resolves.
\<close>

theorem wait_beyond_timer_range:
  "wait 2147483648 0 = (1, Resolved ()) \<and>
   fst (wait 2147483648 0) < 0 + 2147483648 \<and>
   run (boot (Some 1) (Some 2147483648) 0) [Call 0, Call 0, TimerFires 1 1] =
     Some (\<lparr>lim = \<lparr>limit = 1, perMiliseconds = 2147483648, requestCount = 1, lastResetTime = 1\<rparr>,
            now = 1, calls = [Running, Running],
            trace = [Invoked 0 0 0, Delayed 1 0 2147483648, Invoked 1 1 0]\<rparr>
           :: (unit, unit) world)"
  by (simp add: boot_def createRateLimit_def rateLimit_enter_def resetIfElapsed_def
        rateLimit_resume_def wait_def setTimeout_after_def TIMEOUT_MAX_def Let_def)

section \<open>A call that finds the counter full\<close>

text \<open>
  In every run: a call that finds \<open>requestCount \<ge> limit\<close> (after the rollover check)
  suspends on one timer, asked for \<open>perMiliseconds\<close> and due as long after the call as
  \<^verbatim>\<open>setTimeout\<close> makes of that, which is a full \<open>perMiliseconds\<close> when \<open>perMiliseconds\<close> is
  within the range of a timer; when the timer of a waiting call fires, the call is
  admitted without looking at the counter again, whatever the other calls did to the
  limiter in the meantime: it sets \<open>requestCount\<close> to \<open>0\<close> and then \<open>1\<close>, \<open>lastResetTime\<close>
  to the present, and calls its task; and no call ever starts more than one wait.
\<close>

theorem waits_once_then_admitted:
  assumes "run (boot l p t0) evs = Some w"
  shows "(\<forall>t. now w \<le> t \<and> limit (lim w) \<le> requestCount (resetIfElapsed t (lim w)) \<longrightarrow>
            step w (Call t) =
              Some (w\<lparr>lim := resetIfElapsed t (lim w), now := t,
                      calls := calls w @
                        [Waiting (t + setTimeout_after (perMiliseconds (lim w))) (Resolved ())],
                      trace := trace w @
                        [Delayed (length (calls w)) t (perMiliseconds (lim w))]\<rparr>)) \<and>
         (1 \<le> perMiliseconds (lim w) \<and> perMiliseconds (lim w) \<le> TIMEOUT_MAX \<longrightarrow>
            setTimeout_after (perMiliseconds (lim w)) = perMiliseconds (lim w)) \<and>
         (\<forall>i due st t. i < length (calls w) \<and> calls w ! i = Waiting due st \<and>
              due \<le> t \<and> now w \<le> t \<longrightarrow>
            delays i (trace w) =
              [(due - setTimeout_after (perMiliseconds (lim w)), perMiliseconds (lim w))] \<and>
            step w (TimerFires t i) =
              Some (w\<lparr>lim := (lim w)\<lparr>requestCount := 1, lastResetTime := t\<rparr>, now := t,
                      calls := (calls w)[i := Running],
                      trace := trace w @ [Invoked i t 0]\<rparr>)) \<and>
         (\<forall>i < length (calls w).
            delays i (trace w) = [] \<or> (\<exists>t. delays i (trace w) = [(t, perMiliseconds (lim w))]))"
proof (intro conjI allI impI)
  fix t
  assume "now w \<le> t \<and> limit (lim w) \<le> requestCount (resetIfElapsed t (lim w))"
  then have "now w \<le> t" and "limit (lim w) \<le> requestCount (resetIfElapsed t (lim w))"
    by simp_all
  then show "step w (Call t) =
              Some (w\<lparr>lim := resetIfElapsed t (lim w), now := t,
                      calls := calls w @
                        [Waiting (t + setTimeout_after (perMiliseconds (lim w))) (Resolved ())],
                      trace := trace w @
                        [Delayed (length (calls w)) t (perMiliseconds (lim w))]\<rparr>)"
    by (rule step_Call_suspend)
next
  assume "1 \<le> perMiliseconds (lim w) \<and> perMiliseconds (lim w) \<le> TIMEOUT_MAX"
  then show "setTimeout_after (perMiliseconds (lim w)) = perMiliseconds (lim w)"
    by (simp add: setTimeout_after_in_range)
next
  fix i due st t
  assume h: "i < length (calls w) \<and> calls w ! i = Waiting due st \<and> due \<le> t \<and> now w \<le> t"
  then have a: "accounted (perMiliseconds (lim w)) (trace w) i (Waiting due st)"
    using consistent_accounted [OF reachable_consistent [OF assms], of i] by simp
  then show "delays i (trace w) =
              [(due - setTimeout_after (perMiliseconds (lim w)), perMiliseconds (lim w))]"
    by simp
  from a h have c: "calls w ! i = Waiting due (Resolved ())" by simp
  from h have i: "i < length (calls w)" and d: "due \<le> t" and t: "now w \<le> t" by simp_all
  show "step w (TimerFires t i) =
              Some (w\<lparr>lim := (lim w)\<lparr>requestCount := 1, lastResetTime := t\<rparr>, now := t,
                      calls := (calls w)[i := Running],
                      trace := trace w @ [Invoked i t 0]\<rparr>)"
    by (rule step_TimerFires_resume [OF i c d t])
next
  fix i
  assume "i < length (calls w)"
  then show "delays i (trace w) = [] \<or> (\<exists>t. delays i (trace w) = [(t, perMiliseconds (lim w))])"
    using consistent_accounted [OF reachable_consistent [OF assms], of i]
    by (auto dest: accounted_delays)
qed

text \<open>
  At the concrete run below, call 1 waits from time 1; at time 5000 another call rolls
  the window over and is admitted, so the counter is full again; the timer of call 1
  fires at 5001 and call 1 is admitted all the same.
\<close>

theorem waits_once_then_admitted_witness:
  "run (boot (Some 1) (Some 5000) 0) [Call 0, Call 1, Call 5000] =
     Some (\<lparr>lim = \<lparr>limit = 1, perMiliseconds = 5000, requestCount = 1, lastResetTime = 5000\<rparr>,
            now = 5000,
            calls = [Running, Waiting 5001 (Resolved ()), Running],
            trace = [Invoked 0 0 0, Delayed 1 1 5000, Invoked 2 5000 0]\<rparr>
           :: (unit, unit) world) \<and>
   step (\<lparr>lim = \<lparr>limit = 1, perMiliseconds = 5000, requestCount = 1, lastResetTime = 5000\<rparr>,
          now = 5000,
          calls = [Running, Waiting 5001 (Resolved ()), Running],
          trace = [Invoked 0 0 0, Delayed 1 1 5000, Invoked 2 5000 0]\<rparr>
         :: (unit, unit) world) (TimerFires 5001 1) =
     Some \<lparr>lim = \<lparr>limit = 1, perMiliseconds = 5000, requestCount = 1, lastResetTime = 5001\<rparr>,
           now = 5001,
           calls = [Running, Running, Running],
           trace = [Invoked 0 0 0, Delayed 1 1 5000, Invoked 2 5000 0, Invoked 1 5001 0]\<rparr>"
proof -
  let ?w = "\<lparr>lim = \<lparr>limit = 1, perMiliseconds = 5000, requestCount = 1, lastResetTime = 5000\<rparr>,
            now = 5000,
            calls = [Running, Waiting 5001 (Resolved ()), Running],
            trace = [Invoked 0 0 0, Delayed 1 1 5000, Invoked 2 5000 0]\<rparr>
           :: (unit, unit) world"
  have r: "run (boot (Some 1) (Some 5000) 0) [Call 0, Call 1, Call 5000] = Some ?w"
    by (simp add: boot_def createRateLimit_def rateLimit_enter_def resetIfElapsed_def
          rateLimit_resume_def wait_def setTimeout_after_def TIMEOUT_MAX_def Let_def)
  from waits_once_then_admitted [OF r]
  have "\<forall>i due st t. i < length (calls ?w) \<and> calls ?w ! i = Waiting due st \<and>
              due \<le> t \<and> now ?w \<le> t \<longrightarrow>
            step ?w (TimerFires t i) =
              Some (?w\<lparr>lim := (lim ?w)\<lparr>requestCount := 1, lastResetTime := t\<rparr>, now := t,
                      calls := (calls ?w)[i := Running],
                      trace := trace ?w @ [Invoked i t 0]\<rparr>)"
    by blast
  from this [rule_format, of 1 5001 "Resolved ()" 5001] r show ?thesis by simp
qed

text \<open>
  Claim C9. A call that finds \<open>admittedCount \<ge> limit\<close> is to wait once, a full
  \<open>windowDuration\<close>; the code makes it wait once, but not that long when
  \<open>perMiliseconds\<close> is larger than \<^verbatim>\<open>TIMEOUT_MAX\<close>. With \<open>limit = 1\<close> and a window of \<open>2^31\<close>
  milliseconds, constructed at 0: the second call, made at 0, finds the counter full and
  suspends on a timer due at 1; when the timer fires, at 2, it is admitted, with
  \<open>requestCount\<close> set to 1 and \<open>lastResetTime\<close> to 2, having waited 2 milliseconds.
\<close>

theorem saturated_call_beyond_timer_range:
  "run (boot (Some 1) (Some 2147483648) 0) [Call 0, Call 0] =
     Some (\<lparr>lim = \<lparr>limit = 1, perMiliseconds = 2147483648, requestCount = 1, lastResetTime = 0\<rparr>,
            now = 0, calls = [Running, Waiting 1 (Resolved ())],
            trace = [Invoked 0 0 0, Delayed 1 0 2147483648]\<rparr> :: (unit, unit) world) \<and>
   run (boot (Some 1) (Some 2147483648) 0) [Call 0, Call 0, TimerFires 2 1] =
     Some (\<lparr>lim = \<lparr>limit = 1, perMiliseconds = 2147483648, requestCount = 1, lastResetTime = 2\<rparr>,
            now = 2, calls = [Running, Running],
            trace = [Invoked 0 0 0, Delayed 1 0 2147483648, Invoked 1 2 0]\<rparr>
           :: (unit, unit) world) \<and>
   (2::int) - 0 < 2147483648"
  by (simp add: boot_def createRateLimit_def rateLimit_enter_def resetIfElapsed_def
        rateLimit_resume_def wait_def setTimeout_after_def TIMEOUT_MAX_def Let_def)

section \<open>What a task returns does not reach the limiter\<close>

lemma forget_fields [simp]:
  "lim (forget w) = lim w" "now (forget w) = now w"
  "calls (forget w) = map phase (calls w)" "trace (forget w) = trace w"
  by (simp_all add: forget_def)

lemma step_forget: "step (forget w) (timing ev) = map_option forget (step w ev)"
proof (cases ev)
  case (Call t)
  then show ?thesis
    by (auto simp: forget_def Let_def split: prod.splits option.splits)
next
  case (TimerFires t i)
  then show ?thesis
    by (cases "calls w ! i")
       (auto simp: forget_def map_update split: settled.splits)
next
  case (Settles t i out)
  then show ?thesis
    by (cases "calls w ! i") (auto simp: forget_def map_update)
qed

lemma run_forget: "run (forget w) (map timing evs) = map_option forget (run w evs)"
proof (induction evs arbitrary: w)
  case Nil
  then show ?case by simp
next
  case (Cons ev evs)
  show ?case
  proof (cases "step w ev")
    case None
    then show ?thesis using step_forget [of w ev] by simp
  next
    case (Some w1)
    then show ?thesis using step_forget [of w ev] Cons.IH [of w1] by simp
  qed
qed

text \<open>
  Claim C5. The limiter after a call is the same whether the task succeeds or fails.
  The settlement of a task, resolved or rejected, leaves \<open>requestCount\<close> and
  \<open>lastResetTime\<close> as the increment at line 52 left them before the task was called;
  and two runs that differ only in what the tasks settled with go through the same
  limiter states, the same clock, the same phases of the calls and the same trace of
  waits and task calls.
\<close>

theorem slot_kept_on_failure:
  assumes "map timing evs = map timing evs'"
  shows "map_option forget (run w evs) = map_option forget (run w evs') \<and>
         map_option lim (run w evs) = map_option lim (run w evs') \<and>
         (\<forall>t i e w1. step w (Settles t i (Rejected e)) = Some w1 \<longrightarrow>
            lim w1 = lim w \<and>
            (\<forall>v. map_option lim (step w (Settles t i (Resolved v))) = Some (lim w)))"
proof -
  have f: "map_option forget (run w evs) = map_option forget (run w evs')"
    using run_forget [of w evs] run_forget [of w evs'] assms by simp
  have "map_option lim (map_option forget (run w evs)) =
        map_option lim (map_option forget (run w evs'))"
    using f by simp
  then have l: "map_option lim (run w evs) = map_option lim (run w evs')"
    by (simp add: option.map_comp comp_def)
  have s: "\<forall>t i e w1. step w (Settles t i (Rejected e)) = Some w1 \<longrightarrow>
            lim w1 = lim w \<and>
            (\<forall>v. map_option lim (step w (Settles t i (Resolved v))) = Some (lim w))"
    by (auto split: if_splits call_state.splits)
  from f l s show ?thesis by blast
qed

theorem slot_kept_on_failure_witness:
  "map_option lim (run (boot (Some 1) (Some 5000) 0)
      [Call 0, Settles 1 0 (Rejected ''boom''), Call 2 :: (string, nat) event]) =
   map_option lim (run (boot (Some 1) (Some 5000) 0)
      [Call 0, Settles 1 0 (Resolved (3::nat)), Call 2 :: (string, nat) event]) \<and>
   map_option lim (run (boot (Some 1) (Some 5000) 0)
      [Call 0, Settles 1 0 (Rejected ''boom''), Call 2 :: (string, nat) event]) =
   Some \<lparr>limit = 1, perMiliseconds = 5000, requestCount = 1, lastResetTime = 0\<rparr>"
proof -
  have t: "map timing [Call 0, Settles 1 0 (Rejected ''boom''), Call 2 :: (string, nat) event] =
           map timing [Call 0, Settles 1 0 (Resolved (3::nat)), Call 2 :: (string, nat) event]"
    by simp
  have r: "map_option lim (run (boot (Some 1) (Some 5000) 0)
      [Call 0, Settles 1 0 (Rejected ''boom''), Call 2 :: (string, nat) event]) =
   Some \<lparr>limit = 1, perMiliseconds = 5000, requestCount = 1, lastResetTime = 0\<rparr>"
    by (simp add: boot_def createRateLimit_def rateLimit_enter_def resetIfElapsed_def
          wait_def setTimeout_after_def TIMEOUT_MAX_def Let_def)
  from slot_kept_on_failure [OF t, of "boot (Some 1) (Some 5000) 0"]
  have "map_option lim (run (boot (Some 1) (Some 5000) 0)
      [Call 0, Settles 1 0 (Rejected ''boom''), Call 2 :: (string, nat) event]) =
   map_option lim (run (boot (Some 1) (Some 5000) 0)
      [Call 0, Settles 1 0 (Resolved (3::nat)), Call 2 :: (string, nat) event])"
    by (rule conjunct1 [OF conjunct2])
  with r show ?thesis by blast
qed

section \<open>Two runs of the same limiter\<close>

lemma shift_limiter_fields [simp]:
  "limit (shift_limiter d s) = limit s"
  "perMiliseconds (shift_limiter d s) = perMiliseconds s"
  "requestCount (shift_limiter d s) = requestCount s"
  "lastResetTime (shift_limiter d s) = lastResetTime s + d"
  by (simp_all add: shift_limiter_def)

lemma shift_world_fields [simp]:
  "lim (shift_world d w) = shift_limiter d (lim w)"
  "now (shift_world d w) = now w + d"
  "calls (shift_world d w) = map (shift_call d) (calls w)"
  "trace (shift_world d w) = map (shift_effect d) (trace w)"
  by (simp_all add: shift_world_def)

lemma resetIfElapsed_shift:
  "resetIfElapsed (t + d) (shift_limiter d s) = shift_limiter d (resetIfElapsed t s)"
  by (simp add: resetIfElapsed_def shift_limiter_def)

lemma rateLimit_enter_shift:
  "rateLimit_enter (t + d) (shift_limiter d s) =
     (shift_limiter d (fst (rateLimit_enter t s)),
      map_option (\<lambda>(due, st). (due + d, st)) (snd (rateLimit_enter t s)))"
  by (simp add: rateLimit_enter_def resetIfElapsed_shift Let_def wait_def)

lemma rateLimit_resume_shift:
  "rateLimit_resume (t + d) (shift_limiter d s) = shift_limiter d (rateLimit_resume t s)"
  by (simp add: rateLimit_resume_def shift_limiter_def)

lemma step_shift:
  "step (shift_world d w) (shift_event d ev) = map_option (shift_world d) (step w ev)"
proof (cases ev)
  case (Call t)
  obtain s r where e: "rateLimit_enter t (lim w) = (s, r)" by (cases "rateLimit_enter t (lim w)")
  show ?thesis
  proof (cases r)
    case None
    with Call e show ?thesis
      by (simp add: rateLimit_enter_shift Let_def shift_world_def)
  next
    case (Some a)
    obtain due st where "a = (due, st)" by (cases a)
    with Some Call e show ?thesis
      by (simp add: rateLimit_enter_shift Let_def shift_world_def)
  qed
next
  case (TimerFires t i)
  show ?thesis
  proof (cases "i < length (calls w)")
    case False
    with TimerFires show ?thesis by simp
  next
    case True
    with TimerFires show ?thesis
      by (cases "calls w ! i")
         (auto simp: rateLimit_resume_shift shift_world_def map_update split: settled.splits)
  qed
next
  case (Settles t i out)
  show ?thesis
  proof (cases "i < length (calls w)")
    case False
    with Settles show ?thesis by simp
  next
    case True
    with Settles show ?thesis
      by (cases "calls w ! i") (auto simp: shift_world_def map_update)
  qed
qed

lemma run_shift:
  "run (shift_world d w) (map (shift_event d) evs) = map_option (shift_world d) (run w evs)"
proof (induction evs arbitrary: w)
  case Nil
  then show ?case by simp
next
  case (Cons ev evs)
  show ?case
  proof (cases "step w ev")
    case None
    then show ?thesis using step_shift [of d w ev] by simp
  next
    case (Some w1)
    then show ?thesis using step_shift [of d w ev] Cons.IH [of w1] by simp
  qed
qed

lemma boot_shift: "boot l p (t0 + d) = shift_world d (boot l p t0)"
  by (simp add: boot_def shift_world_def shift_limiter_def createRateLimit_def)

text \<open>
  Claim C7. Two limiters constructed with the same \<open>limit\<close> and \<open>perMiliseconds\<close> and
  driven by the same calls, timer wake-ups and settlements behave alike. The clock of
  the second run may read \<open>d\<close> more than that of the first at every moment (\<open>d = 0\<close>
  when the two clocks agree): then after every sequence of events the second limiter is
  in the state of the first, with the same counter, the same phases of the calls and the
  same trace of waits and task calls, every time in it later by \<open>d\<close>; and an event
  sequence the first run cannot take, the second cannot take either. As this holds for
  every sequence, it holds after every prefix of a run.
\<close>

theorem two_run_determinism:
  "run (boot l p (t0 + d)) (map (shift_event d) evs) =
     map_option (shift_world d) (run (boot l p t0) evs) \<and>
   run (boot l p t0) (map (shift_event 0) evs) = run (boot l p t0) evs"
proof -
  have z: "shift_world 0 = (\<lambda>w :: ('a, 'b) world. w)"
  proof
    fix w :: "('a, 'b) world"
    have c: "shift_call 0 = (\<lambda>c :: ('a, 'b) call_state. c)"
    proof
      fix c :: "('a, 'b) call_state" show "shift_call 0 c = c" by (cases c) simp_all
    qed
    have e: "shift_effect 0 = (\<lambda>e. e)"
    proof
      fix e show "shift_effect 0 e = e" by (cases e) simp_all
    qed
    show "shift_world 0 w = w" by (simp add: shift_world_def shift_limiter_def c e)
  qed
  have "run (shift_world 0 (boot l p t0)) (map (shift_event 0) evs) =
          map_option (shift_world 0) (run (boot l p t0 :: ('a, 'b) world) evs)"
    by (rule run_shift)
  then have "run (boot l p t0) (map (shift_event 0) evs) = run (boot l p t0) evs"
    by (simp add: z option.map_ident)
  then show ?thesis by (simp add: boot_shift run_shift)
qed

theorem two_run_determinism_witness:
  "run (boot (Some 1) (Some 5000) 1000)
     (map (shift_event 1000) [Call 0, Call 0, TimerFires 5000 1 :: (unit, unit) event]) =
   map_option (shift_world 1000)
     (run (boot (Some 1) (Some 5000) 0) [Call 0, Call 0, TimerFires 5000 1])"
  using two_run_determinism [of "Some 1" "Some 5000" 0 1000
      "[Call 0, Call 0, TimerFires 5000 1 :: (unit, unit) event]"]
  by simp

section \<open>The steps of one call\<close>

lemma spec_rollover_eq: "spec_rollover t s = resetIfElapsed t s"
  by (simp add: spec_rollover_def resetIfElapsed_def)

lemma spec_execute_admit:
  "\<not> spec_saturated (spec_rollover t s) \<Longrightarrow>
     spec_execute t t' s =
       ((resetIfElapsed t s)\<lparr>requestCount := requestCount (resetIfElapsed t s) + 1\<rparr>, None, t)"
  by (simp add: spec_execute_def Let_def spec_rollover_eq)

lemma spec_execute_wait:
  "spec_saturated (spec_rollover t s) \<Longrightarrow>
     spec_execute t t' s =
       ((resetIfElapsed t s)\<lparr>requestCount := 1, lastResetTime := t'\<rparr>,
        Some (perMiliseconds s), t')"
  by (simp add: spec_execute_def Let_def spec_rollover_eq)

lemma run_Call_TimerFires:
  assumes t: "now w \<le> t" and f: "limit (lim w) \<le> requestCount (resetIfElapsed t (lim w))"
    and t': "t \<le> t'" and due: "t + setTimeout_after (perMiliseconds (lim w)) \<le> t'"
  shows "run w [Call t, TimerFires t' (length (calls w))] =
           Some (w\<lparr>lim := (resetIfElapsed t (lim w))\<lparr>requestCount := 1, lastResetTime := t'\<rparr>,
                   now := t', calls := calls w @ [Running],
                   trace := trace w @
                     [Delayed (length (calls w)) t (perMiliseconds (lim w)),
                      Invoked (length (calls w)) t' 0]\<rparr>)"
proof -
  let ?w1 = "w\<lparr>lim := resetIfElapsed t (lim w), now := t,
               calls := calls w @
                 [Waiting (t + setTimeout_after (perMiliseconds (lim w))) (Resolved ())],
               trace := trace w @ [Delayed (length (calls w)) t (perMiliseconds (lim w))]\<rparr>"
  have 1: "step w (Call t) = Some ?w1" by (rule step_Call_suspend [OF t f])
  show ?thesis using 1 t' due by (simp add: rateLimit_resume_def)
qed

lemma step_keeps_waiting:
  assumes "step w ev = Some w'" and "i < length (calls w)" and "calls w ! i = Waiting due st"
    and "\<forall>u. ev \<noteq> TimerFires u i"
  shows "i < length (calls w') \<and> calls w' ! i = Waiting due st"
proof (cases ev)
  case (Call t)
  with assms show ?thesis
    by (auto simp: Let_def nth_append split: if_splits prod.splits option.splits)
next
  case (TimerFires t j)
  with assms have "j \<noteq> i" by auto
  with assms TimerFires show ?thesis
    by (auto split: if_splits call_state.splits settled.splits)
next
  case (Settles t j out)
  with assms have "j \<noteq> i" by (auto split: if_splits)
  with assms Settles show ?thesis
    by (auto split: if_splits call_state.splits)
qed

lemma run_keeps_waiting:
  assumes "run w evs = Some w'" and "i < length (calls w)" and "calls w ! i = Waiting due st"
    and "\<forall>u. TimerFires u i \<notin> set evs"
  shows "i < length (calls w') \<and> calls w' ! i = Waiting due st"
  using assms
proof (induction evs arbitrary: w)
  case Nil
  then show ?case by simp
next
  case (Cons ev evs)
  from Cons.prems(1) obtain w1 where s: "step w ev = Some w1" and r: "run w1 evs = Some w'"
    by (auto split: option.splits)
  from Cons.prems(4) have e: "\<forall>u. ev \<noteq> TimerFires u i"
    and es: "\<forall>u. TimerFires u i \<notin> set evs" by auto
  from step_keeps_waiting [OF s Cons.prems(2,3) e]
  have "i < length (calls w1)" and "calls w1 ! i = Waiting due st" by simp_all
  from Cons.IH [OF r this es] show ?case .
qed

text \<open>
  When \<open>perMiliseconds\<close> is within the range of a timer, a call issued at time \<open>t\<close> does
  what the five steps of the specification say (\<open>spec_execute\<close>), in any world and with
  any other calls pending. If the counter, after the rollover check at \<open>t\<close>, is below
  the limit, the call takes no wait, leaves the limiter as the steps say and calls its
  task at \<open>t\<close>, all in one turn. Otherwise it suspends on a timer of a full
  \<open>perMiliseconds\<close>, due at \<open>t + perMiliseconds\<close> and not at
  \<open>lastResetTime + perMiliseconds\<close>, leaving the limiter as the rollover check left it.
  If its timer fires at \<open>t'\<close> with no other turn in between, the limiter is then as
  \<open>spec_execute\<close> says for the time \<open>t'\<close> after the wait; and whatever turns are taken in
  between, the call is still waiting when its timer fires, and the limiter is then as
  steps 3 and 4 say (\<open>spec_after_wait\<close>), with the task called at \<open>t'\<close>.
\<close>

theorem rateLimit_follows_steps:
  assumes "now w \<le> t"
    and "1 \<le> perMiliseconds (lim w)" and "perMiliseconds (lim w) \<le> TIMEOUT_MAX"
  shows "(\<not> spec_saturated (spec_rollover t (lim w)) \<longrightarrow>
            spec_execute t t' (lim w) = (fst (spec_execute t t' (lim w)), None, t) \<and>
            step w (Call t) =
              Some (w\<lparr>lim := fst (spec_execute t t' (lim w)), now := t,
                      calls := calls w @ [Running],
                      trace := trace w @ [Invoked (length (calls w)) t 0]\<rparr>)) \<and>
         (spec_saturated (spec_rollover t (lim w)) \<longrightarrow>
            spec_execute t t' (lim w) =
              (fst (spec_execute t t' (lim w)), Some (perMiliseconds (lim w)), t') \<and>
            step w (Call t) =
              Some (w\<lparr>lim := spec_rollover t (lim w), now := t,
                      calls := calls w @ [Waiting (t + perMiliseconds (lim w)) (Resolved ())],
                      trace := trace w @
                        [Delayed (length (calls w)) t (perMiliseconds (lim w))]\<rparr>) \<and>
            (t \<le> t' \<and> t + perMiliseconds (lim w) \<le> t' \<longrightarrow>
               run w [Call t, TimerFires t' (length (calls w))] =
                 Some (w\<lparr>lim := fst (spec_execute t t' (lim w)), now := t',
                         calls := calls w @ [Running],
                         trace := trace w @
                           [Delayed (length (calls w)) t (perMiliseconds (lim w)),
                            Invoked (length (calls w)) t' 0]\<rparr>)) \<and>
            (\<forall>evs w2. run w (Call t # evs) = Some w2 \<and>
                 (\<forall>u. TimerFires u (length (calls w)) \<notin> set evs) \<and>
                 t + perMiliseconds (lim w) \<le> t' \<and> now w2 \<le> t' \<longrightarrow>
               step w2 (TimerFires t' (length (calls w))) =
                 Some (w2\<lparr>lim := spec_after_wait t' (lim w2), now := t',
                          calls := (calls w2)[length (calls w) := Running],
                          trace := trace w2 @ [Invoked (length (calls w)) t' 0]\<rparr>)))"
proof (intro conjI impI allI)
  assume n: "\<not> spec_saturated (spec_rollover t (lim w))"
  show "spec_execute t t' (lim w) = (fst (spec_execute t t' (lim w)), None, t)"
    by (simp add: spec_execute_admit [OF n])
  from n have "requestCount (resetIfElapsed t (lim w)) < limit (lim w)"
    by (simp add: spec_saturated_def spec_rollover_eq)
  from step_Call_admit [OF assms(1) this]
  show "step w (Call t) =
              Some (w\<lparr>lim := fst (spec_execute t t' (lim w)), now := t,
                      calls := calls w @ [Running],
                      trace := trace w @ [Invoked (length (calls w)) t 0]\<rparr>)"
    by (simp add: spec_execute_admit [OF n])
next
  have range: "setTimeout_after (perMiliseconds (lim w)) = perMiliseconds (lim w)"
    by (rule setTimeout_after_in_range [OF assms(2,3)])
  assume y: "spec_saturated (spec_rollover t (lim w))"
  show "spec_execute t t' (lim w) =
              (fst (spec_execute t t' (lim w)), Some (perMiliseconds (lim w)), t')"
    by (simp add: spec_execute_wait [OF y])
  from y have f: "limit (lim w) \<le> requestCount (resetIfElapsed t (lim w))"
    by (simp add: spec_saturated_def spec_rollover_eq)
  let ?w1 = "w\<lparr>lim := spec_rollover t (lim w), now := t,
                      calls := calls w @ [Waiting (t + perMiliseconds (lim w)) (Resolved ())],
                      trace := trace w @
                        [Delayed (length (calls w)) t (perMiliseconds (lim w))]\<rparr>"
  from step_Call_suspend [OF assms(1) f]
  show 1: "step w (Call t) = Some ?w1"
    by (simp add: spec_rollover_eq range)
  {
    assume "t \<le> t' \<and> t + perMiliseconds (lim w) \<le> t'"
    then have t': "t \<le> t'"
      and due: "t + setTimeout_after (perMiliseconds (lim w)) \<le> t'" by (simp_all add: range)
    from run_Call_TimerFires [OF assms(1) f t' due]
    show "run w [Call t, TimerFires t' (length (calls w))] =
                 Some (w\<lparr>lim := fst (spec_execute t t' (lim w)), now := t',
                         calls := calls w @ [Running],
                         trace := trace w @
                           [Delayed (length (calls w)) t (perMiliseconds (lim w)),
                            Invoked (length (calls w)) t' 0]\<rparr>)"
      by (simp add: spec_execute_wait [OF y])
  }
  {
    fix evs w2
    assume h: "run w (Call t # evs) = Some w2 \<and>
                 (\<forall>u. TimerFires u (length (calls w)) \<notin> set evs) \<and>
                 t + perMiliseconds (lim w) \<le> t' \<and> now w2 \<le> t'"
    with 1 have r: "run ?w1 evs = Some w2" by simp
    have i: "length (calls w) < length (calls ?w1)" by simp
    have c: "calls ?w1 ! length (calls w) = Waiting (t + perMiliseconds (lim w)) (Resolved ())"
      by simp
    from h have q: "\<forall>u. TimerFires u (length (calls w)) \<notin> set evs" by simp
    from run_keeps_waiting [OF r i c q]
    have i2: "length (calls w) < length (calls w2)"
      and c2: "calls w2 ! length (calls w) = Waiting (t + perMiliseconds (lim w)) (Resolved ())"
      by simp_all
    from h have d: "t + perMiliseconds (lim w) \<le> t'" and n: "now w2 \<le> t'" by simp_all
    from step_TimerFires_resume [OF i2 c2 d n]
    show "step w2 (TimerFires t' (length (calls w))) =
                 Some (w2\<lparr>lim := spec_after_wait t' (lim w2), now := t',
                          calls := (calls w2)[length (calls w) := Running],
                          trace := trace w2 @ [Invoked (length (calls w)) t' 0]\<rparr>)"
      by (simp add: spec_after_wait_def)
  }
qed

text \<open>
  At the concrete world below the window started at 0 and the counter is full; a call
  at 3000 waits until 8000, a full 5000 after the call, not until 5000.
\<close>

theorem rateLimit_follows_steps_witness:
  "run (\<lparr>lim = \<lparr>limit = 1, perMiliseconds = 5000, requestCount = 1, lastResetTime = 0\<rparr>,
         now = 0, calls = [Running], trace = [Invoked 0 0 0]\<rparr> :: (unit, unit) world)
       [Call 3000, TimerFires 8000 1] =
     Some \<lparr>lim = \<lparr>limit = 1, perMiliseconds = 5000, requestCount = 1, lastResetTime = 8000\<rparr>,
           now = 8000, calls = [Running, Running],
           trace = [Invoked 0 0 0, Delayed 1 3000 5000, Invoked 1 8000 0]\<rparr>"
proof -
  let ?w = "\<lparr>lim = \<lparr>limit = 1, perMiliseconds = 5000, requestCount = 1, lastResetTime = 0\<rparr>,
         now = 0, calls = [Running], trace = [Invoked 0 0 0]\<rparr> :: (unit, unit) world"
  have a: "now ?w \<le> 3000" by simp
  have b: "1 \<le> perMiliseconds (lim ?w)" and c: "perMiliseconds (lim ?w) \<le> TIMEOUT_MAX"
    by (simp_all add: TIMEOUT_MAX_def)
  have s: "spec_saturated (spec_rollover 3000 (lim ?w))"
    by (simp add: spec_saturated_def spec_rollover_def)
  have t: "(3000::int) \<le> 8000 \<and> 3000 + perMiliseconds (lim ?w) \<le> 8000" by simp
  from rateLimit_follows_steps [OF a b c, of 8000] s t
  have "run ?w [Call 3000, TimerFires 8000 (length (calls ?w))] =
          Some (?w\<lparr>lim := fst (spec_execute 3000 8000 (lim ?w)), now := 8000,
                  calls := calls ?w @ [Running],
                  trace := trace ?w @
                    [Delayed (length (calls ?w)) 3000 (perMiliseconds (lim ?w)),
                     Invoked (length (calls ?w)) 8000 0]\<rparr>)"
    by blast
  then show ?thesis
    by (simp add: spec_execute_def spec_rollover_def spec_saturated_def Let_def)
qed

text \<open>
  Claim C2. A call that finds \<open>admittedCount \<ge> limit\<close> is to wait a full
  \<open>windowDuration\<close>; the code does not when \<open>perMiliseconds\<close> is larger than
  \<^verbatim>\<open>TIMEOUT_MAX\<close>. At the world below, with a window of \<open>2^31\<close> milliseconds that started
  at 0 and a full counter, the steps of the specification give a wait of \<open>2147483648\<close>
  for a call at 3000, ending at \<open>2147486648\<close>; the code suspends the call on a timer due
  at 3001, and when that timer fires the call sets \<open>requestCount\<close> to 1,
  \<open>lastResetTime\<close> to 3001 and calls its task.
\<close>

theorem full_wait_beyond_timer_range:
  "spec_execute 3000 2147486648
     \<lparr>limit = 1, perMiliseconds = 2147483648, requestCount = 1, lastResetTime = 0\<rparr> =
     (\<lparr>limit = 1, perMiliseconds = 2147483648, requestCount = 1, lastResetTime = 2147486648\<rparr>,
      Some 2147483648, 2147486648) \<and>
   step (\<lparr>lim = \<lparr>limit = 1, perMiliseconds = 2147483648, requestCount = 1, lastResetTime = 0\<rparr>,
          now = 0, calls = [Running], trace = [Invoked 0 0 0]\<rparr> :: (unit, unit) world)
        (Call 3000) =
     Some \<lparr>lim = \<lparr>limit = 1, perMiliseconds = 2147483648, requestCount = 1, lastResetTime = 0\<rparr>,
           now = 3000, calls = [Running, Waiting 3001 (Resolved ())],
           trace = [Invoked 0 0 0, Delayed 1 3000 2147483648]\<rparr> \<and>
   run (\<lparr>lim = \<lparr>limit = 1, perMiliseconds = 2147483648, requestCount = 1, lastResetTime = 0\<rparr>,
         now = 0, calls = [Running], trace = [Invoked 0 0 0]\<rparr> :: (unit, unit) world)
       [Call 3000, TimerFires 3001 1] =
     Some \<lparr>lim = \<lparr>limit = 1, perMiliseconds = 2147483648, requestCount = 1,
                  lastResetTime = 3001\<rparr>,
           now = 3001, calls = [Running, Running],
           trace = [Invoked 0 0 0, Delayed 1 3000 2147483648, Invoked 1 3001 0]\<rparr>"
  by (simp add: spec_execute_def spec_rollover_def spec_saturated_def rateLimit_enter_def
        resetIfElapsed_def rateLimit_resume_def wait_def setTimeout_after_def TIMEOUT_MAX_def
        Let_def)

section \<open>No more calls than the limit\<close>

lemma step_calls_mono: "step w ev = Some w' \<Longrightarrow> length (calls w) \<le> length (calls w')"
  by (cases ev)
     (auto simp: Let_def split: if_splits prod.splits option.splits call_state.splits
        settled.splits)

lemma step_count_le_calls:
  assumes "step w ev = Some w'" and "requestCount (lim w) \<le> int (length (calls w))"
  shows "requestCount (lim w') \<le> int (length (calls w'))"
  using assms
  by (cases ev)
     (auto simp: rateLimit_enter_def resetIfElapsed_def rateLimit_resume_def Let_def wait_def
        split: if_splits prod.splits option.splits call_state.splits settled.splits)

lemma run_count_le_calls:
  assumes "run w evs = Some w'" and "requestCount (lim w) \<le> int (length (calls w))"
  shows "requestCount (lim w') \<le> int (length (calls w'))"
  using assms
proof (induction evs arbitrary: w)
  case Nil
  then show ?case by simp
next
  case (Cons ev evs)
  then obtain w1 where s: "step w ev = Some w1" and r: "run w1 evs = Some w'"
    by (auto split: option.splits)
  from Cons.IH [OF r step_count_le_calls [OF s Cons.prems(2)]] show ?case .
qed

lemma step_count_nonneg:
  assumes "step w ev = Some w'" and "0 \<le> requestCount (lim w)"
  shows "0 \<le> requestCount (lim w')"
  using assms
  by (cases ev)
     (auto simp: rateLimit_enter_def resetIfElapsed_def rateLimit_resume_def Let_def wait_def
        split: if_splits prod.splits option.splits call_state.splits settled.splits)

lemma run_count_nonneg:
  assumes "run w evs = Some w'" and "0 \<le> requestCount (lim w)"
  shows "0 \<le> requestCount (lim w')"
  using assms
proof (induction evs arbitrary: w)
  case Nil
  then show ?case by simp
next
  case (Cons ev evs)
  then obtain w1 where s: "step w ev = Some w1" and r: "run w1 evs = Some w'"
    by (auto split: option.splits)
  from Cons.IH [OF r step_count_nonneg [OF s Cons.prems(2)]] show ?case .
qed

lemma resetIfElapsed_count: "0 \<le> requestCount s \<Longrightarrow> requestCount (resetIfElapsed t s) \<le> requestCount s"
  by (simp add: resetIfElapsed_def)

lemma step_no_delay:
  assumes s: "step w ev = Some w'" and c: "requestCount (lim w) \<le> int (length (calls w))"
    and z: "0 \<le> requestCount (lim w)"
    and n: "int (length (calls w')) \<le> limit (lim w)" and d: "delays i (trace w) = []"
  shows "delays i (trace w') = []"
proof (cases ev)
  case (Call t)
  with s have t: "now w \<le> t" by (auto split: if_splits)
  have a: "requestCount (resetIfElapsed t (lim w)) < limit (lim w)"
  proof (rule ccontr)
    assume "\<not> requestCount (resetIfElapsed t (lim w)) < limit (lim w)"
    then have f: "limit (lim w) \<le> requestCount (resetIfElapsed t (lim w))" by simp
    from s n show False
      unfolding Call step_Call_suspend [OF t f]
      using f c resetIfElapsed_count [OF z, of t] by auto
  qed
  from s d show ?thesis
    unfolding Call step_Call_admit [OF t a] by (auto simp: delays_snoc_invoked)
next
  case (TimerFires t j)
  with s d show ?thesis
    by (auto simp: delays_snoc_invoked split: if_splits call_state.splits settled.splits)
next
  case (Settles t j out)
  with s d show ?thesis by (auto split: if_splits call_state.splits)
qed

lemma run_no_delay:
  assumes "run (boot (Some n) p t0) evs = Some w" and "int (length (calls w)) \<le> n"
  shows "delays i (trace w) = []"
  using assms
proof (induction evs arbitrary: w rule: rev_induct)
  case Nil
  then show ?case by (auto simp: boot_def)
next
  case (snoc ev evs)
  from snoc.prems(1) obtain w1 where r: "run (boot (Some n) p t0) evs = Some w1"
    and s: "step w1 ev = Some w"
    by (rule run_snoc_SomeE)
  have l: "limit (lim w1) = n"
    using run_config [OF r] by (simp add: boot_def createRateLimit_def)
  have m: "int (length (calls w1)) \<le> n"
    using step_calls_mono [OF s] snoc.prems(2) by simp
  have c: "requestCount (lim w1) \<le> int (length (calls w1))"
    using run_count_le_calls [OF r] by (simp add: boot_def createRateLimit_def)
  have z: "0 \<le> requestCount (lim w1)"
    using run_count_nonneg [OF r] by (simp add: boot_def createRateLimit_def)
  show ?case
    by (rule step_no_delay [OF s c z _ snoc.IH [OF r m]]) (use l snoc.prems(2) in simp)
qed

text \<open>
  Claim C8. While no more calls than \<open>limit\<close> have been made on a limiter, whenever and
  in whatever order they were made, the wait branch has not been taken: no call has
  started a wait, and every call has called its task, once. A further call, as long as
  it is not call number \<open>limit + 1\<close>, calls its task at the very time it is issued.
\<close>

theorem within_limit_no_delay:
  assumes "run (boot (Some n) p t0) evs = Some w" and "int (length (calls w)) \<le> n"
  shows "(\<forall>i < length (calls w).
            delays i (trace w) = [] \<and> admitted (calls w ! i) \<and>
            (\<exists>t. invocations i (trace w) = [(t, 0)])) \<and>
         (\<forall>t. int (length (calls w)) < n \<and> now w \<le> t \<longrightarrow>
            step w (Call t) =
              Some (w\<lparr>lim := (resetIfElapsed t (lim w))
                             \<lparr>requestCount := requestCount (resetIfElapsed t (lim w)) + 1\<rparr>,
                      now := t, calls := calls w @ [Running],
                      trace := trace w @ [Invoked (length (calls w)) t 0]\<rparr>))"
proof (rule conjI; intro allI impI)
  fix i
  assume i: "i < length (calls w)"
  have d: "delays i (trace w) = []" by (rule run_no_delay [OF assms])
  have a: "accounted (perMiliseconds (lim w)) (trace w) i (calls w ! i)"
    using reachable_consistent [OF assms(1)] i by (rule consistent_accounted)
  from a d have ad: "admitted (calls w ! i)" by (cases "calls w ! i") simp_all
  from d ad accounted_admitted [OF a ad]
  show "delays i (trace w) = [] \<and> admitted (calls w ! i) \<and>
            (\<exists>t. invocations i (trace w) = [(t, 0)])"
    by simp
next
  fix t
  assume h: "int (length (calls w)) < n \<and> now w \<le> t"
  have l: "limit (lim w) = n"
    using run_config [OF assms(1)] by (simp add: boot_def createRateLimit_def)
  have c: "requestCount (lim w) \<le> int (length (calls w))"
    using run_count_le_calls [OF assms(1)] by (simp add: boot_def createRateLimit_def)
  have z: "0 \<le> requestCount (lim w)"
    using run_count_nonneg [OF assms(1)] by (simp add: boot_def createRateLimit_def)
  have a: "requestCount (resetIfElapsed t (lim w)) < limit (lim w)"
    using resetIfElapsed_count [OF z, of t] c h l by simp
  from h have t: "now w \<le> t" by simp
  show "step w (Call t) =
              Some (w\<lparr>lim := (resetIfElapsed t (lim w))
                             \<lparr>requestCount := requestCount (resetIfElapsed t (lim w)) + 1\<rparr>,
                      now := t, calls := calls w @ [Running],
                      trace := trace w @ [Invoked (length (calls w)) t 0]\<rparr>)"
    by (rule step_Call_admit [OF t a])
qed

theorem within_limit_no_delay_witness:
  "run (boot (Some 3) (Some 5000) 0)
     [Call 0, Call 1, Settles 2 1 (Resolved ()), Call 7000] =
     Some (\<lparr>lim = \<lparr>limit = 3, perMiliseconds = 5000, requestCount = 1, lastResetTime = 7000\<rparr>,
            now = 7000,
            calls = [Running, Finished (Resolved ()), Running],
            trace = [Invoked 0 0 0, Invoked 1 1 0, Invoked 2 7000 0]\<rparr>
           :: (unit, unit) world) \<and>
   delays 2 [Invoked 0 0 0, Invoked 1 1 0, Invoked 2 7000 0] = []"
proof -
  let ?w = "\<lparr>lim = \<lparr>limit = 3, perMiliseconds = 5000, requestCount = 1, lastResetTime = 7000\<rparr>,
            now = 7000,
            calls = [Running, Finished (Resolved ()), Running],
            trace = [Invoked 0 0 0, Invoked 1 1 0, Invoked 2 7000 0]\<rparr>
           :: (unit, unit) world"
  have r: "run (boot (Some 3) (Some 5000) 0)
     [Call 0, Call 1, Settles 2 1 (Resolved ()), Call 7000] = Some ?w"
    by (simp add: boot_def createRateLimit_def rateLimit_enter_def resetIfElapsed_def
          wait_def setTimeout_after_def TIMEOUT_MAX_def Let_def)
  have n: "int (length (calls ?w)) \<le> 3" by simp
  from within_limit_no_delay [OF r n]
  have "\<forall>i < length (calls ?w).
            delays i (trace ?w) = [] \<and> admitted (calls ?w ! i) \<and>
            (\<exists>t. invocations i (trace ?w) = [(t, 0)])"
    by (rule conjunct1)
  then have "delays 2 (trace ?w) = []" by simp
  with r show ?thesis by simp
qed

section \<open>Task starts per window when calls are awaited\<close>

















lemma run_awaited_run: "run_awaited w evs = Some w' \<Longrightarrow> run w evs = Some w'"
  by (induction evs arbitrary: w) (auto split: if_splits option.splits)





text \<open>
  Calls that are not awaited are outside the amended claim. With \<open>limit = 1\<close>, four calls
  made at time 0 without awaiting: one is admitted, three wait, and at 5000 each of the
  three is admitted as its timer fires.
\<close>

lemma waiters_admitted_together:
  "run (boot (Some 1) (Some 5000) 0)
     [Call 0, Call 0, Call 0, Call 0, TimerFires 5000 1, TimerFires 5000 2, TimerFires 5000 3] =
     Some (\<lparr>lim = \<lparr>limit = 1, perMiliseconds = 5000, requestCount = 1, lastResetTime = 5000\<rparr>,
            now = 5000, calls = [Running, Running, Running, Running],
            trace = [Invoked 0 0 0, Delayed 1 0 5000, Delayed 2 0 5000, Delayed 3 0 5000,
                     Invoked 1 5000 0, Invoked 2 5000 0, Invoked 3 5000 0]\<rparr>
           :: (unit, unit) world) \<and>
   starts_within 5000 5000
     (start_times [Invoked 0 0 0, Delayed 1 0 5000, Delayed 2 0 5000, Delayed 3 0 5000,
                   Invoked 1 5000 0, Invoked 2 5000 0, Invoked 3 5000 0]) = 3"
  by (simp add: boot_def createRateLimit_def rateLimit_enter_def resetIfElapsed_def
        rateLimit_resume_def wait_def setTimeout_after_def TIMEOUT_MAX_def Let_def starts_within_def)

text \<open>
  A window beyond the range of a timer is outside the amended claim as well. With
  \<open>limit = 1\<close> and a window of \<open>2^31\<close> milliseconds, each wait ends after a millisecond
  or two: three awaited tasks start at 0, 2 and 4.
\<close>

lemma timer_overflow_three_starts:
  "run_awaited (boot (Some 1) (Some 2147483648) 0)
     [Call 0, Settles 0 0 (Resolved ()), Call 0, TimerFires 2 1, Settles 2 1 (Resolved ()),
      Call 2, TimerFires 4 2] =
     Some (\<lparr>lim = \<lparr>limit = 1, perMiliseconds = 2147483648, requestCount = 1, lastResetTime = 4\<rparr>,
            now = 4, calls = [Finished (Resolved ()), Finished (Resolved ()), Running],
            trace = [Invoked 0 0 0, Delayed 1 0 2147483648, Invoked 1 2 0,
                     Delayed 2 2 2147483648, Invoked 2 4 0]\<rparr> :: (unit, unit) world) \<and>
   starts_within 0 2147483648
     (start_times [Invoked 0 0 0, Delayed 1 0 2147483648, Invoked 1 2 0,
                   Delayed 2 2 2147483648, Invoked 2 4 0]) = 3"
  by (simp add: boot_def createRateLimit_def rateLimit_enter_def resetIfElapsed_def
        rateLimit_resume_def wait_def setTimeout_after_def TIMEOUT_MAX_def Let_def
        starts_within_def)

section \<open>The call after the limit\<close>

lemma step_now_mono: "step w ev = Some w' \<Longrightarrow> now w \<le> now w'"
  by (cases ev)
     (auto simp: Let_def split: if_splits prod.splits option.splits call_state.splits
        settled.splits)

lemma dues_snoc:
  assumes "\<forall>i < length cs. \<forall>due st. cs ! i = Waiting due st \<longrightarrow> b \<le> due"
    and "\<forall>due st. x = Waiting due st \<longrightarrow> b \<le> due"
  shows "\<forall>i < length (cs @ [x]). \<forall>due st. (cs @ [x]) ! i = Waiting due st \<longrightarrow> b \<le> due"
proof (intro allI impI)
  fix i due st
  assume i: "i < length (cs @ [x])" and c: "(cs @ [x]) ! i = Waiting due st"
  show "b \<le> due"
  proof (cases "i < length cs")
    case True
    with c assms(1) show ?thesis by (simp add: nth_append)
  next
    case False
    with i have "i = length cs" by simp
    with c assms(2) show ?thesis by simp
  qed
qed

lemma first_window_step:
  assumes s: "step w1 ev = Some w"
    and per: "perMiliseconds (lim w1) = W" and lim: "limit (lim w1) = n"
    and L: "lastResetTime (lim w1) = t0" and t0: "t0 \<le> now w1"
    and below: "int (length (calls w1)) \<le> n \<longrightarrow> requestCount (lim w1) = int (length (calls w1))"
    and above: "n \<le> int (length (calls w1)) \<longrightarrow> n \<le> requestCount (lim w1)"
    and dues: "\<forall>i < length (calls w1). \<forall>due st. calls w1 ! i = Waiting due st \<longrightarrow> t0 + W \<le> due"
    and early: "now w < t0 + W" and range: "1 \<le> W" "W \<le> TIMEOUT_MAX"
  shows "lastResetTime (lim w) = t0 \<and> t0 \<le> now w \<and>
         (int (length (calls w)) \<le> n \<longrightarrow> requestCount (lim w) = int (length (calls w))) \<and>
         (n \<le> int (length (calls w)) \<longrightarrow> n \<le> requestCount (lim w)) \<and>
         (\<forall>i < length (calls w). \<forall>due st. calls w ! i = Waiting due st \<longrightarrow> t0 + W \<le> due)"
proof (cases ev)
  case (Call t)
  with s have t: "now w1 \<le> t" by (auto split: if_splits)
  from s Call have nw: "now w = t"
    by (auto simp: Let_def split: if_splits prod.splits option.splits)
  from nw early have r: "resetIfElapsed t (lim w1) = lim w1"
    by (simp add: resetIfElapsed_def L per)
  show ?thesis
  proof (cases "requestCount (lim w1) < n")
    case True
    then have a: "requestCount (resetIfElapsed t (lim w1)) < limit (lim w1)"
      by (simp add: r lim)
    from True above have "int (length (calls w1)) < n" by auto
    with below have c: "requestCount (lim w1) = int (length (calls w1))" by simp
    from s have w: "w = w1\<lparr>lim := (lim w1)\<lparr>requestCount := requestCount (lim w1) + 1\<rparr>,
                   now := t, calls := calls w1 @ [Running],
                   trace := trace w1 @ [Invoked (length (calls w1)) t 0]\<rparr>"
      unfolding Call step_Call_admit [OF t a] by (auto simp: r)
    have "\<forall>i < length (calls w1 @ [Running]). \<forall>due st.
            (calls w1 @ [Running]) ! i = Waiting due st \<longrightarrow> t0 + W \<le> due"
      by (rule dues_snoc [OF dues]) simp
    with L t0 t c show ?thesis by (simp add: w)
  next
    case False
    then have f: "limit (lim w1) \<le> requestCount (resetIfElapsed t (lim w1))"
      by (simp add: r lim)
    from False below have big: "\<not> int (length (calls w1)) < n" by auto
    from s have w: "w = w1\<lparr>lim := lim w1, now := t,
                   calls := calls w1 @ [Waiting (t + W) (Resolved ())],
                   trace := trace w1 @ [Delayed (length (calls w1)) t W]\<rparr>"
      unfolding Call step_Call_suspend [OF t f]
      using range by (auto simp: r per setTimeout_after_in_range)
    have "\<forall>i < length (calls w1 @ [Waiting (t + W) (Resolved ())]). \<forall>due st.
            (calls w1 @ [Waiting (t + W) (Resolved ())]) ! i = Waiting due st \<longrightarrow> t0 + W \<le> due"
      by (rule dues_snoc [OF dues]) (use t0 t in simp)
    with L t0 t False big show ?thesis by (simp add: w)
  qed
next
  case (TimerFires t i)
  with s obtain due st where i: "i < length (calls w1)" and c: "calls w1 ! i = Waiting due st"
    and due: "due \<le> t"
    by (auto split: if_splits call_state.splits)
  from s TimerFires have "now w = t"
    by (auto split: if_splits call_state.splits settled.splits)
  with dues i c due early show ?thesis by force
next
  case (Settles t i out)
  with s have i: "i < length (calls w1)" and t: "now w1 \<le> t"
    and w: "w = w1\<lparr>now := t, calls := (calls w1)[i := Finished out]\<rparr>"
    by (auto split: if_splits call_state.splits)
  have "\<forall>j < length (calls w1). \<forall>due st.
          (calls w1)[i := Finished out] ! j = Waiting due st \<longrightarrow> t0 + W \<le> due"
  proof (intro allI impI)
    fix j due st
    assume j: "j < length (calls w1)"
      and c: "(calls w1)[i := Finished out] ! j = Waiting due st"
    from c i have "j \<noteq> i" by auto
    with c have "calls w1 ! j = Waiting due st" by simp
    with dues j show "t0 + W \<le> due" by simp
  qed
  with L t0 t below above show ?thesis by (simp add: w)
qed

lemma first_window:
  assumes "run (boot (Some n) (Some W) t0) evs = Some w" and "now w < t0 + W"
    and "1 \<le> W" and "W \<le> TIMEOUT_MAX"
  shows "lastResetTime (lim w) = t0 \<and> t0 \<le> now w \<and>
         (int (length (calls w)) \<le> n \<longrightarrow> requestCount (lim w) = int (length (calls w))) \<and>
         (n \<le> int (length (calls w)) \<longrightarrow> n \<le> requestCount (lim w)) \<and>
         (\<forall>i < length (calls w). \<forall>due st. calls w ! i = Waiting due st \<longrightarrow> t0 + W \<le> due)"
  using assms(1,2)
proof (induction evs arbitrary: w rule: rev_induct)
  case Nil
  then show ?case by (auto simp: boot_def createRateLimit_def)
next
  case (snoc ev evs)
  from snoc.prems(1) obtain w1 where r: "run (boot (Some n) (Some W) t0) evs = Some w1"
    and s: "step w1 ev = Some w"
    by (rule run_snoc_SomeE)
  have cfg: "limit (lim w1) = n" "perMiliseconds (lim w1) = W"
    using run_config [OF r] by (simp_all add: boot_def createRateLimit_def)
  have early1: "now w1 < t0 + W"
    using step_now_mono [OF s] snoc.prems(2) by simp
  from snoc.IH [OF r early1]
  have L: "lastResetTime (lim w1) = t0" and t0: "t0 \<le> now w1"
    and below: "int (length (calls w1)) \<le> n \<longrightarrow> requestCount (lim w1) = int (length (calls w1))"
    and above: "n \<le> int (length (calls w1)) \<longrightarrow> n \<le> requestCount (lim w1)"
    and dues: "\<forall>i < length (calls w1). \<forall>due st. calls w1 ! i = Waiting due st \<longrightarrow> t0 + W \<le> due"
    by simp_all
  show ?case
    by (rule first_window_step [OF s cfg(2) cfg(1) L t0 below above dues snoc.prems(2)
          assms(3,4)])
qed

lemma consistent_fresh_id:
  "consistent w \<Longrightarrow> \<forall>e \<in> set (trace w). effect_id e \<noteq> length (calls w)"
  by (auto simp: consistent_def)

lemma after_overflow_step:
  assumes s: "step w1 ev = Some w" and cons: "consistent w1"
    and z: "0 \<le> requestCount (lim w1)"
    and IH: "k < length (calls w1) \<and> admitted (calls w1 ! k) \<and> delays k (trace w1) \<noteq> [] \<longrightarrow>
               requestCount (lim w1) \<le> int (length (calls w1)) - int k"
    and k: "k < length (calls w)" and ad: "admitted (calls w ! k)"
    and d: "delays k (trace w) \<noteq> []"
  shows "requestCount (lim w) \<le> int (length (calls w)) - int k"
proof (cases ev)
  case (Call t)
  with s have t: "now w1 \<le> t" by (auto split: if_splits)
  let ?i = "length (calls w1)"
  have fresh: "delays ?i (trace w1) = []"
    by (rule delays_fresh [OF consistent_fresh_id [OF cons]])
  have low: "requestCount (resetIfElapsed t (lim w1)) \<le> requestCount (lim w1)"
    by (rule resetIfElapsed_count [OF z])
  show ?thesis
  proof (cases "requestCount (resetIfElapsed t (lim w1)) < limit (lim w1)")
    case True
    from s have w: "w = w1\<lparr>lim := (resetIfElapsed t (lim w1))
                          \<lparr>requestCount := requestCount (resetIfElapsed t (lim w1)) + 1\<rparr>,
                   now := t, calls := calls w1 @ [Running],
                   trace := trace w1 @ [Invoked ?i t 0]\<rparr>"
      unfolding Call step_Call_admit [OF t True] by simp
    from d have d1: "delays k (trace w1) \<noteq> []" by (simp add: w delays_snoc_invoked)
    with fresh have "k \<noteq> ?i" by auto
    with k have k1: "k < ?i" by (simp add: w)
    with ad have "admitted (calls w1 ! k)" by (simp add: w nth_append)
    with IH k1 d1 have "requestCount (lim w1) \<le> int ?i - int k" by simp
    with low show ?thesis by (simp add: w)
  next
    case False
    then have f: "limit (lim w1) \<le> requestCount (resetIfElapsed t (lim w1))" by simp
    from s have w: "w = w1\<lparr>lim := resetIfElapsed t (lim w1), now := t,
                   calls := calls w1 @
                     [Waiting (t + setTimeout_after (perMiliseconds (lim w1))) (Resolved ())],
                   trace := trace w1 @ [Delayed ?i t (perMiliseconds (lim w1))]\<rparr>"
      unfolding Call step_Call_suspend [OF t f] by simp
    from ad have "k \<noteq> ?i" by (auto simp: w nth_append)
    with k have k1: "k < ?i" by (simp add: w)
    with ad have a1: "admitted (calls w1 ! k)" by (simp add: w nth_append)
    from d \<open>k \<noteq> ?i\<close> have d1: "delays k (trace w1) \<noteq> []"
      by (simp add: w delays_snoc_delayed)
    from IH k1 a1 d1 have "requestCount (lim w1) \<le> int ?i - int k" by simp
    with low show ?thesis by (simp add: w)
  qed
next
  case (TimerFires t j)
  with s obtain due st where j: "j < length (calls w1)" and c: "calls w1 ! j = Waiting due st"
    and due: "due \<le> t" and t: "now w1 \<le> t"
    by (auto split: if_splits call_state.splits)
  from consistent_Waiting [OF cons j c] c have c': "calls w1 ! j = Waiting due (Resolved ())"
    by simp
  from s have "requestCount (lim w) = 1" and "length (calls w) = length (calls w1)"
    unfolding TimerFires step_TimerFires_resume [OF j c' due t] by auto
  with k show ?thesis by simp
next
  case (Settles t j out)
  with s have j: "j < length (calls w1)" and r: "calls w1 ! j = Running"
    and w: "w = w1\<lparr>now := t, calls := (calls w1)[j := Finished out]\<rparr>"
    by (auto split: if_splits call_state.splits)
  from k have k1: "k < length (calls w1)" by (simp add: w)
  have "admitted (calls w1 ! k)"
  proof (cases "k = j")
    case True
    with r show ?thesis by simp
  next
    case False
    with ad show ?thesis by (simp add: w)
  qed
  with IH k1 d show ?thesis by (simp add: w)
qed

lemma after_overflow:
  assumes "run (boot l p t0) evs = Some w"
    and "k < length (calls w)" and "admitted (calls w ! k)" and "delays k (trace w) \<noteq> []"
  shows "requestCount (lim w) \<le> int (length (calls w)) - int k"
  using assms
proof (induction evs arbitrary: w rule: rev_induct)
  case Nil
  then show ?case by (auto simp: boot_def)
next
  case (snoc ev evs)
  from snoc.prems(1) obtain w1 where r: "run (boot l p t0) evs = Some w1"
    and s: "step w1 ev = Some w"
    by (rule run_snoc_SomeE)
  have z: "0 \<le> requestCount (lim w1)"
    using run_count_nonneg [OF r] by (simp add: boot_def createRateLimit_def)
  have IH: "k < length (calls w1) \<and> admitted (calls w1 ! k) \<and> delays k (trace w1) \<noteq> [] \<longrightarrow>
               requestCount (lim w1) \<le> int (length (calls w1)) - int k"
    using snoc.IH [OF r] by blast
  show ?case
    by (rule after_overflow_step [OF s reachable_consistent [OF r] z IH snoc.prems(2,3,4)])
qed

text \<open>
  On a limiter newly constructed at \<open>t0\<close> with \<open>limit = n\<close> and a window \<open>W\<close> within the
  range of a timer: every call made after \<open>n\<close> or more calls and while the first window
  has not elapsed (before \<open>t0 + W\<close>), the call numbered \<open>n + 1\<close> among them, takes the
  wait, a timer of one full \<open>W\<close> from the time it is issued, and leaves the limiter as
  it was. For any window: the calls numbered \<open>n + 2\<close> to \<open>2 * n\<close> that are issued once
  call \<open>n + 1\<close> has waited and been admitted take no wait; each calls its task in the
  turn in which it is issued.
\<close>

theorem overflow_call_waits_once:
  assumes "run (boot (Some n) (Some W) t0) evs = Some w" and "now w \<le> t"
  shows "(1 \<le> W \<and> W \<le> TIMEOUT_MAX \<and> n \<le> int (length (calls w)) \<and> t < t0 + W \<longrightarrow>
            step w (Call t) =
              Some (w\<lparr>now := t,
                      calls := calls w @ [Waiting (t + W) (Resolved ())],
                      trace := trace w @ [Delayed (length (calls w)) t W]\<rparr>)) \<and>
         (n < int (length (calls w)) \<and> int (length (calls w)) < 2 * n \<and>
          admitted (calls w ! nat n) \<and> delays (nat n) (trace w) \<noteq> [] \<longrightarrow>
            step w (Call t) =
              Some (w\<lparr>lim := (resetIfElapsed t (lim w))
                             \<lparr>requestCount := requestCount (resetIfElapsed t (lim w)) + 1\<rparr>,
                      now := t, calls := calls w @ [Running],
                      trace := trace w @ [Invoked (length (calls w)) t 0]\<rparr>))"
proof (intro conjI impI)
  have cfg: "limit (lim w) = n" "perMiliseconds (lim w) = W"
    using run_config [OF assms(1)] by (simp_all add: boot_def createRateLimit_def)
  assume h: "1 \<le> W \<and> W \<le> TIMEOUT_MAX \<and> n \<le> int (length (calls w)) \<and> t < t0 + W"
  then have range: "1 \<le> W" "W \<le> TIMEOUT_MAX" by simp_all
  from h assms(2) have "now w < t0 + W" by simp
  from first_window [OF assms(1) this range] h
  have L: "lastResetTime (lim w) = t0" and c: "n \<le> requestCount (lim w)"
    by simp_all
  from h L cfg have r: "resetIfElapsed t (lim w) = lim w" by (simp add: resetIfElapsed_def)
  from c cfg have f: "limit (lim w) \<le> requestCount (resetIfElapsed t (lim w))"
    by (simp add: r)
  show "step w (Call t) =
              Some (w\<lparr>now := t,
                      calls := calls w @ [Waiting (t + W) (Resolved ())],
                      trace := trace w @ [Delayed (length (calls w)) t W]\<rparr>)"
    unfolding step_Call_suspend [OF assms(2) f]
    by (simp add: r cfg setTimeout_after_in_range [OF range])
next
  have cfg: "limit (lim w) = n"
    using run_config [OF assms(1)] by (simp add: boot_def createRateLimit_def)
  assume h: "n < int (length (calls w)) \<and> int (length (calls w)) < 2 * n \<and>
          admitted (calls w ! nat n) \<and> delays (nat n) (trace w) \<noteq> []"
  then have ad: "admitted (calls w ! nat n)" and d: "delays (nat n) (trace w) \<noteq> []"
    by simp_all
  from h have k: "nat n < length (calls w)" by linarith
  from h have pos: "0 \<le> n" by linarith
  from after_overflow [OF assms(1) k ad d] h pos
  have c: "requestCount (lim w) < n" by simp
  have z: "0 \<le> requestCount (lim w)"
    using run_count_nonneg [OF assms(1)] by (simp add: boot_def createRateLimit_def)
  from resetIfElapsed_count [OF z, of t] c cfg
  have a: "requestCount (resetIfElapsed t (lim w)) < limit (lim w)" by simp
  show "step w (Call t) =
              Some (w\<lparr>lim := (resetIfElapsed t (lim w))
                             \<lparr>requestCount := requestCount (resetIfElapsed t (lim w)) + 1\<rparr>,
                      now := t, calls := calls w @ [Running],
                      trace := trace w @ [Invoked (length (calls w)) t 0]\<rparr>)"
    by (rule step_Call_admit [OF assms(2) a])
qed

text \<open>
  At the concrete run below, \<open>limit = 2\<close> and the window is 5000: after two awaited
  calls at time 0, a third call at 10 waits until 5010.
\<close>

theorem overflow_call_waits_once_witness:
  "run (boot (Some 2) (Some 5000) 0)
     [Call 0, Settles 0 0 (Resolved ()), Call 0, Settles 0 1 (Resolved ())] =
     Some (\<lparr>lim = \<lparr>limit = 2, perMiliseconds = 5000, requestCount = 2, lastResetTime = 0\<rparr>,
            now = 0, calls = [Finished (Resolved ()), Finished (Resolved ())],
            trace = [Invoked 0 0 0, Invoked 1 0 0]\<rparr> :: (unit, unit) world) \<and>
   step (\<lparr>lim = \<lparr>limit = 2, perMiliseconds = 5000, requestCount = 2, lastResetTime = 0\<rparr>,
          now = 0, calls = [Finished (Resolved ()), Finished (Resolved ())],
          trace = [Invoked 0 0 0, Invoked 1 0 0]\<rparr> :: (unit, unit) world) (Call 10) =
     Some \<lparr>lim = \<lparr>limit = 2, perMiliseconds = 5000, requestCount = 2, lastResetTime = 0\<rparr>,
           now = 10,
           calls = [Finished (Resolved ()), Finished (Resolved ()), Waiting 5010 (Resolved ())],
           trace = [Invoked 0 0 0, Invoked 1 0 0, Delayed 2 10 5000]\<rparr>"
proof -
  let ?w = "\<lparr>lim = \<lparr>limit = 2, perMiliseconds = 5000, requestCount = 2, lastResetTime = 0\<rparr>,
            now = 0, calls = [Finished (Resolved ()), Finished (Resolved ())],
            trace = [Invoked 0 0 0, Invoked 1 0 0]\<rparr> :: (unit, unit) world"
  have r: "run (boot (Some 2) (Some 5000) 0)
     [Call 0, Settles 0 0 (Resolved ()), Call 0, Settles 0 1 (Resolved ())] = Some ?w"
    by (simp add: boot_def createRateLimit_def rateLimit_enter_def resetIfElapsed_def
          rateLimit_resume_def wait_def setTimeout_after_def TIMEOUT_MAX_def Let_def)
  have t: "now ?w \<le> 10" by simp
  have h: "(1::int) \<le> 5000 \<and> (5000::int) \<le> TIMEOUT_MAX \<and> 2 \<le> int (length (calls ?w)) \<and>
           (10::int) < 0 + 5000"
    by (simp add: TIMEOUT_MAX_def)
  from overflow_call_waits_once [OF r t] h
  have "step ?w (Call 10) =
              Some (?w\<lparr>now := 10,
                      calls := calls ?w @ [Waiting (10 + 5000) (Resolved ())],
                      trace := trace ?w @ [Delayed (length (calls ?w)) 10 5000]\<rparr>)"
    by blast
  with r show ?thesis by simp
qed

text \<open>
  Claim C3. A call numbered \<open>limit + 1\<close> or higher that is issued within the first window
  is to wait one full \<open>windowDuration\<close> before its task is admitted; the code does not
  make it wait that long when \<open>perMiliseconds\<close> is larger than \<^verbatim>\<open>TIMEOUT_MAX\<close>. With
  \<open>limit = 1\<close> and a window of \<open>2^31\<close> milliseconds, constructed at 0, and two awaited
  calls made back to back at 0: the second call, which is call \<open>limit + 1\<close> and call
  \<open>2 * limit\<close>, asks for a timer of \<open>2147483648\<close> milliseconds and calls its task at 2.
\<close>

theorem overflow_call_beyond_timer_range:
  "run_awaited (boot (Some 1) (Some 2147483648) 0)
     [Call 0, Settles 0 0 (Resolved ()), Call 0, TimerFires 2 1] =
     Some (\<lparr>lim = \<lparr>limit = 1, perMiliseconds = 2147483648, requestCount = 1, lastResetTime = 2\<rparr>,
            now = 2, calls = [Finished (Resolved ()), Running],
            trace = [Invoked 0 0 0, Delayed 1 0 2147483648, Invoked 1 2 0]\<rparr>
           :: (unit, unit) world) \<and>
   delays 1 [Invoked 0 0 0, Delayed 1 0 2147483648, Invoked 1 2 0] = [(0, 2147483648)] \<and>
   invocations 1 [Invoked 0 0 0, Delayed 1 0 2147483648, Invoked 1 2 0] = [(2, 0)] \<and>
   (2::int) < 0 + 2147483648"
  by (simp add: boot_def createRateLimit_def rateLimit_enter_def resetIfElapsed_def
        rateLimit_resume_def wait_def setTimeout_after_def TIMEOUT_MAX_def Let_def)

end
